theory Spec2Isabelle
  imports Main "HOL-Library.Sublist"
begin

section \<open>Python string primitives used by app.py\<close>

text \<open>
  Python \<open>str\<close> values are modelled as \<open>string\<close> (lists of \<open>char\<close>); the model
  therefore covers texts whose code points are below 256.  \<open>nl\<close> is the line feed.
\<close>

abbreviation nl :: char where
  "nl \<equiv> CHR 0x0A"

text \<open>\<open>s.split(c)\<close> for a one-character separator: always at least one field.\<close>

fun split_on :: "char \<Rightarrow> string \<Rightarrow> string list" where
  "split_on c [] = [[]]"
| "split_on c (x # xs) =
     (if x = c then [] # split_on c xs
      else (case split_on c xs of [] \<Rightarrow> [[x]] | l # ls \<Rightarrow> (x # l) # ls))"

text \<open>\<open>sep.join(xs)\<close>.\<close>

fun join :: "string \<Rightarrow> string list \<Rightarrow> string" where
  "join sep [] = []"
| "join sep [x] = x"
| "join sep (x # y # ys) = x @ sep @ join sep (y # ys)"

section \<open>Input Builder: \<open>generate_orca_input\<close>\<close>

text \<open>
  \<^verbatim>\<open>
  def generate_orca_input(geometry, method="B3LYP", basis="def2-SVP", calculation_type="Opt"):
      input_content = f"""! {method} {basis} {calculation_type}

  * xyz 0 1
  {geometry}
  *
  """
      return input_content
  \<close>
\<close>

definition generate_orca_input :: "string \<Rightarrow> string \<Rightarrow> string \<Rightarrow> string \<Rightarrow> string" where
  "generate_orca_input geometry method basis calculation_type =
     ''! '' @ method @ '' '' @ basis @ '' '' @ calculation_type @ [nl] @
     [nl] @
     ''* xyz 0 1'' @ [nl] @
     geometry @ [nl] @
     ''*'' @ [nl]"

definition default_method :: string where "default_method = ''B3LYP''"
definition default_basis :: string where "default_basis = ''def2-SVP''"
definition default_calculation_type :: string where "default_calculation_type = ''Opt''"

section \<open>More Python string primitives\<close>

text \<open>
  \<open>str.isspace\<close> on one code point below 256; the same set is the class \<open>\s\<close> of
  \<open>re\<close> on \<open>str\<close> patterns.  \<open>\d\<close> is the ten ASCII digits in that range.
\<close>

definition is_space :: "char \<Rightarrow> bool" where
  "is_space c \<longleftrightarrow> c \<in> set [CHR 0x09, CHR 0x0A, CHR 0x0B, CHR 0x0C, CHR 0x0D,
     CHR 0x1C, CHR 0x1D, CHR 0x1E, CHR 0x1F, CHR 0x20, CHR 0x85, CHR 0xA0]"

definition is_digit :: "char \<Rightarrow> bool" where
  "is_digit c \<longleftrightarrow> c \<in> set ''0123456789''"

text \<open>\<open>s.strip()\<close>.\<close>

definition strip :: "string \<Rightarrow> string" where
  "strip s = rev (dropWhile is_space (rev (dropWhile is_space s)))"

text \<open>\<open>s.split()\<close>: the maximal runs of non-whitespace, in order.\<close>

fun split_ws :: "string \<Rightarrow> string list" where
  "split_ws [] = []"
| "split_ws (x # xs) =
     (if is_space x then split_ws xs
      else (case xs of
              [] \<Rightarrow> [[x]]
            | y # _ \<Rightarrow>
                if is_space y then [x] # split_ws xs
                else (case split_ws xs of [] \<Rightarrow> [[x]] | t # ts \<Rightarrow> (x # t) # ts)))"

text \<open>\<open>lit in s\<close> for strings.\<close>

fun str_contains :: "string \<Rightarrow> string \<Rightarrow> bool" where
  "str_contains lit [] = (lit = [])"
| "str_contains lit (x # xs) = (prefix lit (x # xs) \<or> str_contains lit xs)"

text \<open>Format specifications \<open>{s:2s}\<close> (via \<open>ljust\<close>) and \<open>{s:>12s}\<close> (via \<open>rjust\<close>):
  padding to a minimum width, never truncating.\<close>

definition ljust :: "nat \<Rightarrow> string \<Rightarrow> string" where
  "ljust w s = s @ replicate (w - length s) CHR '' ''"

definition rjust :: "nat \<Rightarrow> string \<Rightarrow> string" where
  "rjust w s = replicate (w - length s) CHR '' '' @ s"

text \<open>\<open>str(n)\<close> for an integer.\<close>

fun str_nat :: "nat \<Rightarrow> string" where
  "str_nat n = (if n < 10 then [''0123456789'' ! n]
                else str_nat (n div 10) @ [''0123456789'' ! (n mod 10)])"

definition str_int :: "int \<Rightarrow> string" where
  "str_int i = (if i < 0 then CHR ''-'' # str_nat (nat (- i)) else str_nat (nat i))"

text \<open>
  \<open>repr\<close> of a \<open>str\<close> and of a list of \<open>str\<close>, as the f-string prints the result of
  \<open>os.listdir\<close>: single quotes unless the text has a single quote and no double quote;
  quote and backslash escaped; tab, line feed and carriage return as \<open>\t \n \r\<close>; the other
  non-printable code points as \<open>\xhh\<close>.
\<close>

definition hex2 :: "char \<Rightarrow> string" where
  "hex2 c = (let n = (of_char c :: nat) in
      [''0123456789abcdef'' ! (n div 16), ''0123456789abcdef'' ! (n mod 16)])"

definition repr_quote :: "string \<Rightarrow> char" where
  "repr_quote s = (if CHR 0x27 \<in> set s \<and> CHR 0x22 \<notin> set s then CHR 0x22 else CHR 0x27)"

definition repr_char :: "char \<Rightarrow> char \<Rightarrow> string" where
  "repr_char q c =
     (let n = (of_char c :: nat) in
      if c = q \<or> c = CHR 0x5C then [CHR 0x5C, c]
      else if c = CHR 0x09 then [CHR 0x5C, CHR ''t'']
      else if c = CHR 0x0A then [CHR 0x5C, CHR ''n'']
      else if c = CHR 0x0D then [CHR 0x5C, CHR ''r'']
      else if n < 32 \<or> n = 127 then [CHR 0x5C, CHR ''x''] @ hex2 c
      else if n < 127 then [c]
      else if n \<le> 160 \<or> n = 173 then [CHR 0x5C, CHR ''x''] @ hex2 c
      else [c])"

definition repr_str :: "string \<Rightarrow> string" where
  "repr_str s = (let q = repr_quote s in [q] @ concat (map (repr_char q) s) @ [q])"

definition repr_list :: "string list \<Rightarrow> string" where
  "repr_list xs = ''['' @ join '', '' (map repr_str xs) @ '']''"

text \<open>\<open>os.path.join(a, b)\<close> on a POSIX system.\<close>

definition os_path_join :: "string \<Rightarrow> string \<Rightarrow> string" where
  "os_path_join a b =
     (if prefix ''/'' b then b
      else if a = [] \<or> last a = CHR ''/'' then a @ b
      else a @ ''/'' @ b)"

section \<open>Process Runner: \<open>run_orca_calculation\<close>\<close>

text \<open>
  The operating system is an environment that answers each call the function makes.
  \<open>Inl\<close> is a raised exception \<open>e\<close> with its text \<open>str(e)\<close>: \<open>TimeoutExpired\<close> is
  \<open>subprocess.TimeoutExpired\<close>, \<open>OtherError\<close> any other \<open>Exception\<close>.  The model
  returns the calls it made, in order, next to its result.
\<close>

datatype error = TimeoutExpired string | OtherError string

definition str_error :: "error \<Rightarrow> string" where
  "str_error e = (case e of TimeoutExpired msg \<Rightarrow> msg | OtherError msg \<Rightarrow> msg)"

record spawn_request =
  command :: string
  shell :: bool
  cwd :: string
  timeout :: nat

datatype action =
    WriteFile string string
  | Spawn spawn_request
  | Exists string
  | ListDir string
  | ReadFile string

record os_env =
  write_file :: "string \<Rightarrow> string \<Rightarrow> error + unit"
  subprocess_run :: "spawn_request \<Rightarrow> error + int"
  path_exists :: "string \<Rightarrow> bool"
  listdir :: "string \<Rightarrow> error + string list"
  read_file :: "string \<Rightarrow> error + string"

definition input_file :: "string \<Rightarrow> string" where
  "input_file temp_dir = os_path_join temp_dir ''calculation.inp''"

definition output_file :: "string \<Rightarrow> string" where
  "output_file temp_dir = os_path_join temp_dir ''calculation.out''"

text \<open>
  \<^verbatim>\<open>
  command = f"orca {input_file} >& {output_file}"
  result = subprocess.run(command, shell=True, cwd=temp_dir, timeout=300)
  \<close>
\<close>

definition launch_request :: "string \<Rightarrow> spawn_request" where
  "launch_request temp_dir =
     \<lparr>command = ''orca '' @ input_file temp_dir @ '' >& '' @ output_file temp_dir,
      shell = True, cwd = temp_dir, timeout = 300\<rparr>"

definition missing_output_msg :: "int \<Rightarrow> string list \<Rightarrow> string" where
  "missing_output_msg returncode files_created =
     (''ORCA did not create output file.'' @ [nl] @
      ''Return code: '' @ str_int returncode @ [nl]) @
     (''Files in temp directory: '' @ repr_list files_created @ [nl])"

definition abnormal_msg :: string where
  "abnormal_msg = ''ORCA did not terminate normally. Check output file for errors.''"

definition timeout_msg :: string where
  "timeout_msg = ''Calculation timed out after 5 minutes''"

text \<open>The body of the \<open>try\<close> statement (lines 46 to 68): \<open>Inl\<close> is an exception
  leaving the body.\<close>

definition try_body ::
  "os_env \<Rightarrow> string \<Rightarrow> action list \<times> (error + bool \<times> string \<times> string)" where
  "try_body env temp_dir =
     (case subprocess_run env (launch_request temp_dir) of
        Inl e \<Rightarrow> ([Spawn (launch_request temp_dir)], Inl e)
      | Inr returncode \<Rightarrow>
          if \<not> path_exists env (output_file temp_dir) then
            (case listdir env temp_dir of
               Inl e \<Rightarrow>
                 ([Spawn (launch_request temp_dir), Exists (output_file temp_dir),
                   ListDir temp_dir], Inl e)
             | Inr files_created \<Rightarrow>
                 ([Spawn (launch_request temp_dir), Exists (output_file temp_dir),
                   ListDir temp_dir],
                  Inr (False, output_file temp_dir,
                       missing_output_msg returncode files_created)))
          else
            (case read_file env (output_file temp_dir) of
               Inl e \<Rightarrow>
                 ([Spawn (launch_request temp_dir), Exists (output_file temp_dir),
                   ReadFile (output_file temp_dir)], Inl e)
             | Inr output_content \<Rightarrow>
                 ([Spawn (launch_request temp_dir), Exists (output_file temp_dir),
                   ReadFile (output_file temp_dir)],
                  if \<not> str_contains ''ORCA TERMINATED NORMALLY'' output_content
                  then Inr (False, output_file temp_dir, abnormal_msg)
                  else Inr (True, output_file temp_dir, output_content))))"

text \<open>The whole function: the input file is written before the \<open>try\<close>; the two
  handlers turn an exception of the body into a failure triple.\<close>

definition run_orca_calculation ::
  "os_env \<Rightarrow> string \<Rightarrow> string \<Rightarrow> action list \<times> (error + bool \<times> string \<times> string)" where
  "run_orca_calculation env input_content temp_dir =
     (case write_file env (input_file temp_dir) input_content of
        Inl e \<Rightarrow> ([WriteFile (input_file temp_dir) input_content], Inl e)
      | Inr _ \<Rightarrow>
          (case try_body env temp_dir of
             (tr, Inr res) \<Rightarrow> (WriteFile (input_file temp_dir) input_content # tr, Inr res)
           | (tr, Inl (TimeoutExpired msg)) \<Rightarrow>
               (WriteFile (input_file temp_dir) input_content # tr,
                Inr (False, output_file temp_dir, timeout_msg))
           | (tr, Inl (OtherError msg)) \<Rightarrow>
               (WriteFile (input_file temp_dir) input_content # tr,
                Inr (False, output_file temp_dir, msg))))"

text \<open>Sample environments for concrete runs.\<close>

definition sample_env :: os_env where
  "sample_env = \<lparr>write_file = (\<lambda>p c. Inr ()),
     subprocess_run = (\<lambda>r. Inr 0),
     path_exists = (\<lambda>p. True),
     listdir = (\<lambda>p. Inr [''calculation.inp'']),
     read_file = (\<lambda>p. Inr ''ORCA finished by error termination'')\<rparr>"

definition no_output_env :: os_env where
  "no_output_env = \<lparr>write_file = (\<lambda>p c. Inr ()),
     subprocess_run = (\<lambda>r. Inr 127),
     path_exists = (\<lambda>p. False),
     listdir = (\<lambda>p. Inr [''calculation.inp'']),
     read_file = (\<lambda>p. Inl (OtherError ''No such file or directory''))\<rparr>"

definition slow_env :: os_env where
  "slow_env = \<lparr>write_file = (\<lambda>p c. Inr ()),
     subprocess_run = (\<lambda>r. Inl (TimeoutExpired ''timed out after 300 seconds'')),
     path_exists = (\<lambda>p. True),
     listdir = (\<lambda>p. Inr [''calculation.inp'', ''calculation.out'']),
     read_file = (\<lambda>p. Inr ''partial ORCA TERMINATED NORMALLY'')\<rparr>"

definition readonly_env :: os_env where
  "readonly_env = \<lparr>write_file = (\<lambda>p c. Inl (OtherError ''Permission denied'')),
     subprocess_run = (\<lambda>r. Inr 0),
     path_exists = (\<lambda>p. False),
     listdir = (\<lambda>p. Inr []),
     read_file = (\<lambda>p. Inl (OtherError ''No such file or directory''))\<rparr>"

definition unlistable_env :: os_env where
  "unlistable_env = \<lparr>write_file = (\<lambda>p c. Inr ()),
     subprocess_run = (\<lambda>r. Inr 127),
     path_exists = (\<lambda>p. False),
     listdir = (\<lambda>p. Inl (OtherError ''[Errno 13] Permission denied'')),
     read_file = (\<lambda>p. Inl (OtherError ''[Errno 2] No such file or directory''))\<rparr>"

section \<open>Output Parser: the \<open>re\<close> patterns\<close>

text \<open>
  The two patterns use literals, the classes \<open>\s \d .\<close> and bracket sets, sequence,
  alternation, greedy and lazy repetition, one capturing group and a lookahead.  A
  pattern is a value of \<open>regex\<close>; \<open>Plus\<close>, \<open>Opt\<close> and \<open>AtLeast3\<close> are the greedy
  quantifiers \<open>+\<close>, \<open>?\<close> and \<open>{3,}\<close> written with \<open>Star\<close>.
\<close>

datatype cclass = Space | Digit | Dot | OneOf string

fun in_class :: "cclass \<Rightarrow> char \<Rightarrow> bool" where
  "in_class Space c = is_space c"
| "in_class Digit c = is_digit c"
| "in_class Dot c = (c \<noteq> nl)"
| "in_class (OneOf cs) c = (c \<in> set cs)"

datatype regex =
    Eps
  | Lit string
  | Cls cclass
  | Seq regex regex
  | Alt regex regex
  | Star regex
  | LazyStar regex
  | Group nat regex
  | Lookahead regex

definition Plus :: "regex \<Rightarrow> regex" where
  "Plus r = Seq r (Star r)"

definition Opt :: "regex \<Rightarrow> regex" where
  "Opt r = Alt r Eps"

definition AtLeast3 :: "regex \<Rightarrow> regex" where
  "AtLeast3 r = Seq r (Seq r (Seq r (Star r)))"

fun seq :: "regex list \<Rightarrow> regex" where
  "seq [] = Eps"
| "seq [r] = r"
| "seq (r # rs) = Seq r (seq rs)"

text \<open>
  A matching state is the text not yet consumed and the groups captured so far.
  \<open>matches r st\<close> lists the states in which a match of \<open>r\<close> started in \<open>st\<close> can
  end, in the order in which the backtracking matcher of \<open>re\<close> tries them: its first
  element is the match \<open>re\<close> reports.  An iteration of a repetition that consumes nothing
  is not continued (no repetition body of the two patterns can match the empty text).
\<close>

type_synonym mstate = "string \<times> (nat \<times> string) list"

function matches :: "regex \<Rightarrow> mstate \<Rightarrow> mstate list" where
  "matches Eps st = [st]"
| "matches (Lit l) st =
     (if prefix l (fst st) then [(drop (length l) (fst st), snd st)] else [])"
| "matches (Cls k) st =
     (case fst st of
        [] \<Rightarrow> []
      | x # xs \<Rightarrow> if in_class k x then [(xs, snd st)] else [])"
| "matches (Seq r1 r2) st = concat (map (matches r2) (matches r1 st))"
| "matches (Alt r1 r2) st = matches r1 st @ matches r2 st"
| "matches (Star r) st =
     concat (map (\<lambda>st'. if length (fst st') < length (fst st)
                          then matches (Star r) st' else [])
                 (matches r st)) @ [st]"
| "matches (LazyStar r) st =
     st # concat (map (\<lambda>st'. if length (fst st') < length (fst st)
                               then matches (LazyStar r) st' else [])
                      (matches r st))"
| "matches (Group n r) st =
     map (\<lambda>st'. (fst st', (n, take (length (fst st) - length (fst st')) (fst st)) # snd st'))
         (matches r st)"
| "matches (Lookahead r) st =
     (case matches r st of [] \<Rightarrow> [] | st' # _ \<Rightarrow> [(fst st, snd st')])"
  by pat_completeness auto
termination
  by (relation "inv_image (less_than <*lex*> less_than)
                  (\<lambda>(r, st). (size r, length (fst st)))") auto

text \<open>The match attempted at one start position: the first end state, if any.\<close>

definition first_match :: "regex \<Rightarrow> mstate \<Rightarrow> mstate option" where
  "first_match r st = (case matches r st of [] \<Rightarrow> None | st' # _ \<Rightarrow> Some st')"

text \<open>
  \<open>re.search\<close>: the first start position, from the left, at which the pattern matches;
  the result is the text from that position, the text after the match and the groups.
\<close>

fun search :: "regex \<Rightarrow> string \<Rightarrow> (string \<times> string \<times> (nat \<times> string) list) option" where
  "search r [] =
     (case first_match r ([], []) of None \<Rightarrow> None | Some (e, c) \<Rightarrow> Some ([], e, c))"
| "search r (x # xs) =
     (case first_match r (x # xs, []) of
        None \<Rightarrow> search r xs
      | Some (e, c) \<Rightarrow> Some (x # xs, e, c))"

text \<open>\<open>m.group(n)\<close>; a group that did not take part is \<open>None\<close>.\<close>

definition group :: "(nat \<times> string) list \<Rightarrow> nat \<Rightarrow> string option" where
  "group c n = map_of c n"

text \<open>
  \<open>re.findall\<close> for a pattern with one group: group 1 of the successive non-overlapping
  matches, each search starting where the previous match ended.  After a match of the
  empty text the scan moves on by one character.  The length tests hold for every match;
  they make the recursion visibly terminate.
\<close>

function findall :: "regex \<Rightarrow> string \<Rightarrow> string list" where
  "findall r s =
     (case search r s of
        None \<Rightarrow> []
      | Some (b, e, c) \<Rightarrow>
          (case group c 1 of None \<Rightarrow> [] | Some g \<Rightarrow> g) #
          (if length e < length b \<and> length e < length s then findall r e
           else if b \<noteq> [] \<and> length (tl b) < length s then findall r (tl b)
           else []))"
  by pat_completeness auto
termination
  by (relation "measure (\<lambda>(r, s). length s)") auto

text \<open>
  \<^verbatim>\<open>energy_pattern = r'FINAL SINGLE POINT ENERGY\s+([-+]?\d*\.?\d+(?:[eE][-+]?\d+)?)'\<close>
\<close>

definition exponent_pattern :: regex where
  "exponent_pattern = seq [Cls (OneOf ''eE''), Opt (Cls (OneOf ''-+'')), Plus (Cls Digit)]"

definition number_pattern :: regex where
  "number_pattern =
     seq [Opt (Cls (OneOf ''-+'')), Star (Cls Digit), Opt (Lit ''.''), Plus (Cls Digit),
          Opt exponent_pattern]"

definition energy_label :: string where
  "energy_label = ''FINAL SINGLE POINT ENERGY''"

definition energy_pattern :: regex where
  "energy_pattern = seq [Lit energy_label, Plus (Cls Space), Group 1 number_pattern]"

text \<open>
  \<^verbatim>\<open>geometry_pattern = r'CARTESIAN COORDINATES \(ANGSTROEM\)\s*-+\s*\n((?:.*\n)*?)(?=-{3,}|\n\s*\n)'\<close>
\<close>

definition line_pattern :: regex where
  "line_pattern = Seq (Star (Cls Dot)) (Lit [nl])"

definition terminator_pattern :: regex where
  "terminator_pattern =
     Alt (AtLeast3 (Lit ''-'')) (seq [Lit [nl], Star (Cls Space), Lit [nl]])"

definition geometry_header :: string where
  "geometry_header = ''CARTESIAN COORDINATES (ANGSTROEM)''"

definition geometry_pattern :: regex where
  "geometry_pattern =
     seq [Lit geometry_header, Star (Cls Space), Plus (Lit ''-''),
          Star (Cls Space), Lit [nl],
          Group 1 (LazyStar line_pattern),
          Lookahead terminator_pattern]"

section \<open>Output Parser: \<open>parse_orca_output\<close>\<close>

text \<open>
  Whether the built-in \<open>float\<close> accepts a text without surrounding whitespace (it raises
  \<open>ValueError\<close> otherwise), after the grammar of the language reference: an optional sign,
  then \<open>inf\<close>, \<open>infinity\<close> or \<open>nan\<close> in any case, or digits with an optional point and
  an optional exponent, where single underscores may separate digits.
\<close>

fun skip_digits :: "string \<Rightarrow> string" where
  "skip_digits [] = []"
| "skip_digits [c] = (if is_digit c then [] else [c])"
| "skip_digits (c # d # r) =
     (if is_digit c then skip_digits (d # r)
      else if c = CHR ''_'' \<and> is_digit d then skip_digits (d # r)
      else c # d # r)"

definition digitpart :: "string \<Rightarrow> string option" where
  "digitpart s = (case s of [] \<Rightarrow> None
                  | c # r \<Rightarrow> if is_digit c then Some (skip_digits r) else None)"

definition skip_sign :: "string \<Rightarrow> string" where
  "skip_sign s = (case s of [] \<Rightarrow> []
                  | c # r \<Rightarrow> if c = CHR ''+'' \<or> c = CHR ''-'' then r else s)"

definition number :: "string \<Rightarrow> string option" where
  "number s =
     (case digitpart s of
        Some r \<Rightarrow>
          (case r of
             [] \<Rightarrow> Some []
           | c # r' \<Rightarrow>
               if c = CHR ''.'' then (case digitpart r' of Some r'' \<Rightarrow> Some r'' | None \<Rightarrow> Some r')
               else Some r)
      | None \<Rightarrow>
          (case s of
             [] \<Rightarrow> None
           | c # r \<Rightarrow> if c = CHR ''.'' then digitpart r else None))"

definition lower :: "char \<Rightarrow> char" where
  "lower c = (case map_of (zip ''ABCDEFGHIJKLMNOPQRSTUVWXYZ'' ''abcdefghijklmnopqrstuvwxyz'') c of
                Some l \<Rightarrow> l | None \<Rightarrow> c)"

definition is_inf_or_nan :: "string \<Rightarrow> bool" where
  "is_inf_or_nan s \<longleftrightarrow> map lower (skip_sign s) \<in> set [''inf'', ''infinity'', ''nan'']"

definition py_float_ok :: "string \<Rightarrow> bool" where
  "py_float_ok s \<longleftrightarrow>
     is_inf_or_nan s \<or>
     (case number (skip_sign s) of
        None \<Rightarrow> False
      | Some r \<Rightarrow>
          (case r of
             [] \<Rightarrow> True
           | c # r' \<Rightarrow>
               (c = CHR ''e'' \<or> c = CHR ''E'') \<and> digitpart (skip_sign r') = Some []))"

text \<open>
  \<^verbatim>\<open>
  energy_match = re.search(energy_pattern, content)
  if energy_match: energy = energy_match.group(1)
  else: energy = "Not found"
  \<close>
\<close>

definition parse_energy :: "string \<Rightarrow> string" where
  "parse_energy content =
     (case search energy_pattern content of
        Some (b, e, c) \<Rightarrow> (case group c 1 of Some g \<Rightarrow> g | None \<Rightarrow> [])
      | None \<Rightarrow> ''Not found'')"

text \<open>The format of one kept line (line 108).\<close>

definition format_atom :: "string list \<Rightarrow> string" where
  "format_atom parts =
     ljust 2 (parts ! 0) @ ''  '' @ rjust 12 (parts ! 1) @ ''  '' @
     rjust 12 (parts ! 2) @ ''  '' @ rjust 12 (parts ! 3)"

text \<open>One iteration of the loop over the lines of the block (lines 98 to 110):
  \<open>atom_lines\<close> is the list built so far.\<close>

definition atom_line_step :: "string list \<Rightarrow> string \<Rightarrow> string list" where
  "atom_line_step atom_lines line0 =
     (let line = strip line0 in
      if line \<noteq> [] \<and> \<not> prefix ''-'' line then
        (let parts = split_ws line in
         if length parts \<ge> 4 then
           (if py_float_ok (parts ! 1) \<and> py_float_ok (parts ! 2) \<and> py_float_ok (parts ! 3)
            then atom_lines @ [format_atom parts]
            else atom_lines)
         else atom_lines)
      else atom_lines)"

definition extract_atom_lines :: "string \<Rightarrow> string list" where
  "extract_atom_lines geometry_text = foldl atom_line_step [] (split_on nl geometry_text)"

text \<open>Lines 95 to 111 on one captured block.\<close>

definition geometry_of_block :: "string \<Rightarrow> string" where
  "geometry_of_block block =
     (let atom_lines = extract_atom_lines (strip block) in
      if atom_lines \<noteq> [] then join [nl] atom_lines else ''Not found'')"

definition parse_geometry :: "string \<Rightarrow> string" where
  "parse_geometry content =
     (let geometry_matches = findall geometry_pattern content in
      if geometry_matches \<noteq> [] then geometry_of_block (last geometry_matches)
      else ''Not found'')"

text \<open>The function: every exception of the body is caught by \<open>except Exception\<close>.\<close>

definition parse_orca_output :: "os_env \<Rightarrow> string \<Rightarrow> error + string \<times> string \<times> string" where
  "parse_orca_output env out_file =
     (case read_file env out_file of
        Inr content \<Rightarrow> Inr (parse_energy content, parse_geometry content, content)
      | Inl e \<Rightarrow> Inr (''Error: '' @ str_error e, ''Error: '' @ str_error e, str_error e))"

text \<open>
  The selection rule in the specification's words, to be compared with
  \<open>atom_line_step\<close>: a line is kept when it has at least four whitespace-separated fields
  and its last three fields parse as finite numbers.  A field counts as a finite number
  here when \<open>float\<close> accepts it and it is not one of the \<open>inf\<close>, \<open>infinity\<close>, \<open>nan\<close>
  spellings.
\<close>

definition parses_as_finite_number :: "string \<Rightarrow> bool" where
  "parses_as_finite_number s \<longleftrightarrow> py_float_ok s \<and> \<not> is_inf_or_nan s"

definition spec_keeps_line :: "string \<Rightarrow> bool" where
  "spec_keeps_line l =
     (let fields = split_ws l in
      4 \<le> length fields \<and> list_all parses_as_finite_number (drop (length fields - 3) fields))"

text \<open>
  The shape of a numeric value as the specification describes it: an optional sign,
  digits with an optional decimal point, and an optional exponent.
\<close>

definition opt_sign :: "string \<Rightarrow> bool" where
  "opt_sign s \<longleftrightarrow> s = [] \<or> s = ''+'' \<or> s = ''-''"

definition opt_point :: "string \<Rightarrow> bool" where
  "opt_point s \<longleftrightarrow> s = [] \<or> s = ''.''"

definition opt_exponent :: "string \<Rightarrow> bool" where
  "opt_exponent ex =
     (case ex of
        [] \<Rightarrow> True
      | e # r \<Rightarrow> (e = CHR ''e'' \<or> e = CHR ''E'') \<and> skip_sign r \<noteq> [] \<and>
                 list_all is_digit (skip_sign r))"

text \<open>The text after a numeric value does not continue it.\<close>

definition ends_number :: "string \<Rightarrow> bool" where
  "ends_number post =
     (case post of
        [] \<Rightarrow> True
      | x # _ \<Rightarrow> \<not> is_digit x \<and> x \<noteq> CHR ''.'' \<and> x \<noteq> CHR ''e'' \<and> x \<noteq> CHR ''E'')"

text \<open>
  \<open>begins_inside l pre\<close>: in a text that continues \<open>pre\<close> with \<open>l\<close>, an occurrence of \<open>l\<close>
  starts at one of the positions of \<open>pre\<close>.
\<close>

definition begins_inside :: "string \<Rightarrow> string \<Rightarrow> bool" where
  "begins_inside l pre = str_contains l (pre @ butlast l)"

text \<open>
  The layout in which the engine prints a coordinates section, used to state what the
  parser returns on such reports: the header line, a rule of \<open>n\<close> dashes, the lines of
  the block, an empty line, and then a rule of at least three dashes.  A line of the
  block has no line feed, has a character that is not whitespace and does not start with
  three dashes.  A report is some text \<open>gap\<close> before each section and \<open>post\<close> after the
  last.
\<close>

definition block_line :: "string \<Rightarrow> bool" where
  "block_line l \<longleftrightarrow> nl \<notin> set l \<and> list_ex (\<lambda>c. \<not> is_space c) l \<and> \<not> prefix ''---'' l"

definition atom_block :: "string list \<Rightarrow> string" where
  "atom_block ls = concat (map (\<lambda>l. l @ [nl]) ls) @ [nl]"

definition section_text :: "nat \<Rightarrow> string list \<Rightarrow> string" where
  "section_text n ls = geometry_header @ [nl] @ replicate n CHR ''-'' @ [nl] @ atom_block ls"

type_synonym report_section = "string \<times> nat \<times> string list"

fun report_text :: "report_section list \<Rightarrow> string \<Rightarrow> string" where
  "report_text [] post = post"
| "report_text ((gap, n, ls) # secs) post =
     gap @ section_text n ls @ ''---'' @ report_text secs post"

fun section_ok :: "report_section \<Rightarrow> bool" where
  "section_ok (gap, n, ls) \<longleftrightarrow>
     \<not> begins_inside geometry_header gap \<and> 1 \<le> n \<and> ls \<noteq> [] \<and> list_all block_line ls"

fun section_block :: "report_section \<Rightarrow> string" where
  "section_block (gap, n, ls) = atom_block ls"

text \<open>A report with two sections, for a concrete run of the parser.\<close>

definition sample_sections :: "report_section list" where
  "sample_sections =
     [(''GEOMETRY OPTIMIZATION CYCLE 1'' @ [nl] @ ''---------------------------------'' @ [nl],
       33, [''  O      0.000000    0.000000    0.000000'',
            ''  H      0.960000    0.000000    0.000000'']),
      (''-----'' @ [nl] @ ''CARTESIAN COORDINATES (A.U.)'' @ [nl] @ ''GEOMETRY OPTIMIZATION CYCLE 2''
         @ [nl] @ ''---------------------------------'' @ [nl],
       33, [''  O      0.001200   -0.000400    0.000000'',
            ''  H      0.957100    0.002300    0.000000''])]"

definition sample_tail :: string where
  "sample_tail = ''-----'' @ [nl] @ ''FINAL SINGLE POINT ENERGY     -76.321654'' @ [nl]
     @ ''****ORCA TERMINATED NORMALLY****'' @ [nl]"

text \<open>The lines of a section, and the token lists of the lines of a text that have a
  token.\<close>

fun section_lines :: "report_section \<Rightarrow> string list" where
  "section_lines (gap, n, ls) = ls"

definition tokens_of_lines :: "string \<Rightarrow> string list list" where
  "tokens_of_lines text = filter (\<lambda>ts. ts \<noteq> []) (map split_ws (split_on nl text))"

text \<open>
  The energy in the specification's words, written as a scanner, to be compared with
  \<open>parse_energy\<close>.  The numeric value at the start of a text is an optional sign, then
  digits, optionally a point followed by digits, optionally an exponent (\<open>e\<close> or \<open>E\<close>,
  optional sign, digits), each part as long as possible; a point not followed by a digit
  and an exponent mark not followed by digits do not belong to it, and without a digit
  there is no value.  The energy is the value after the first occurrence of the label
  that is followed by whitespace and then a value; without such an occurrence it is
  \<open>Not found\<close>.
\<close>

definition point_digit :: "string \<Rightarrow> bool" where
  "point_digit v = (case v of p # f # _ \<Rightarrow> p = CHR ''.'' \<and> is_digit f | _ \<Rightarrow> False)"

definition spec_exponent :: "string \<Rightarrow> string" where
  "spec_exponent w =
     (case w of
        [] \<Rightarrow> []
      | e # r \<Rightarrow>
          if (e = CHR ''e'' \<or> e = CHR ''E'') \<and> skip_sign r \<noteq> [] \<and> is_digit (hd (skip_sign r))
          then e # take (length r - length (skip_sign r)) r @ takeWhile is_digit (skip_sign r)
          else [])"

definition spec_number :: "string \<Rightarrow> string option" where
  "spec_number s =
     (let u = skip_sign s;
          sg = take (length s - length u) s;
          ip = takeWhile is_digit u;
          v = dropWhile is_digit u
      in if point_digit v
         then Some (sg @ ip @ ''.'' @ takeWhile is_digit (tl v) @
                    spec_exponent (dropWhile is_digit (tl v)))
         else if ip \<noteq> [] then Some (sg @ ip @ spec_exponent v)
         else None)"

definition spec_energy_at :: "string \<Rightarrow> string option" where
  "spec_energy_at s =
     (if prefix energy_label s
      then (let t = drop (length energy_label) s in
            if t \<noteq> [] \<and> is_space (hd t) then spec_number (dropWhile is_space t) else None)
      else None)"

fun spec_energy :: "string \<Rightarrow> string" where
  "spec_energy [] = ''Not found''"
| "spec_energy (x # xs) =
     (case spec_energy_at (x # xs) of Some v \<Rightarrow> v | None \<Rightarrow> spec_energy xs)"

section \<open>Verified properties\<close>

subsection \<open>Splitting and joining\<close>

lemma split_on_nonempty: "split_on c s \<noteq> []"
  by (induction s) (auto split: list.splits)

lemma split_on_no_sep: "c \<notin> set s \<Longrightarrow> split_on c s = [s]"
  by (induction s) auto

lemma split_on_append_sep:
  "c \<notin> set l \<Longrightarrow> split_on c (l @ c # rest) = l # split_on c rest"
  by (induction l) auto

lemma split_on_lines:
  "\<forall>l\<in>set ls. c \<notin> set l \<Longrightarrow>
     split_on c (concat (map (\<lambda>l. l @ [c]) ls) @ rest) = ls @ split_on c rest"
proof (induction ls)
  case Nil
  then show ?case by simp
next
  case (Cons l ls)
  have "split_on c (concat (map (\<lambda>l. l @ [c]) (l # ls)) @ rest) =
          split_on c (l @ c # (concat (map (\<lambda>l. l @ [c]) ls) @ rest))"
    by simp
  also have "\<dots> = l # split_on c (concat (map (\<lambda>l. l @ [c]) ls) @ rest)"
    using Cons.prems by (intro split_on_append_sep) simp
  finally show ?case using Cons by simp
qed

lemma join_nl_lines:
  "ls \<noteq> [] \<Longrightarrow> join [c] ls @ [c] = concat (map (\<lambda>l. l @ [c]) ls)"
  by (induction ls rule: induct_list012) auto

subsection \<open>Input Builder\<close>

text \<open>
  C5.  For a request whose geometry is the text of N atom lines (N at least one, as the
  data model requires, no line feed inside a line or inside the three parameters), the
  document is the directive line \<open>! method basis jobtype\<close>, an empty line, the opener
  \<open>* xyz 0 1\<close>, the N atom lines unchanged and in order, and the closing \<open>*\<close>, each
  terminated by a line feed.  The builder is a function of its four arguments only.
\<close>

theorem generate_orca_input_document:
  assumes "atoms \<noteq> []"
    and "\<forall>l\<in>set atoms. nl \<notin> set l"
    and "nl \<notin> set method" and "nl \<notin> set basis" and "nl \<notin> set jobtype"
  shows "generate_orca_input (join [nl] atoms) method basis jobtype =
           concat (map (\<lambda>l. l @ [nl])
             ([''! '' @ method @ '' '' @ basis @ '' '' @ jobtype, [], ''* xyz 0 1'']
               @ atoms @ [''*'']))
         \<and> split_on nl (generate_orca_input (join [nl] atoms) method basis jobtype) =
             [''! '' @ method @ '' '' @ basis @ '' '' @ jobtype, [], ''* xyz 0 1'']
               @ atoms @ [''*'', []]"
proof -
  let ?d = "''! '' @ method @ '' '' @ basis @ '' '' @ jobtype"
  let ?ls = "[?d, [], ''* xyz 0 1''] @ atoms @ [''*'']"
  have j: "join [nl] atoms @ [nl] = concat (map (\<lambda>l. l @ [nl]) atoms)"
    using assms(1) by (rule join_nl_lines)
  have doc: "generate_orca_input (join [nl] atoms) method basis jobtype =
               concat (map (\<lambda>l. l @ [nl]) ?ls)"
    using j by (simp add: generate_orca_input_def)
  have "\<forall>l\<in>set ?ls. nl \<notin> set l"
    using assms(2-5) by auto
  from split_on_lines[OF this, of "[]"]
  have "split_on nl (concat (map (\<lambda>l. l @ [nl]) ?ls)) = ?ls @ [[]]"
    by (simp del: split_on.simps(2) map_append concat_append)
  with doc show ?thesis by (simp del: split_on.simps(2))
qed

theorem generate_orca_input_document_witness:
  "generate_orca_input (join [nl] [''O 0.0 0.0 0.0'', ''H 0.96 0.0 0.0'', ''H -0.24 0.93 0.0''])
       default_method default_basis default_calculation_type =
     concat (map (\<lambda>l. l @ [nl])
       [''! B3LYP def2-SVP Opt'', [], ''* xyz 0 1'',
        ''O 0.0 0.0 0.0'', ''H 0.96 0.0 0.0'', ''H -0.24 0.93 0.0'', ''*''])
   \<and> split_on nl (generate_orca_input
       (join [nl] [''O 0.0 0.0 0.0'', ''H 0.96 0.0 0.0'', ''H -0.24 0.93 0.0''])
       default_method default_basis default_calculation_type) =
     [''! B3LYP def2-SVP Opt'', [], ''* xyz 0 1'',
      ''O 0.0 0.0 0.0'', ''H 0.96 0.0 0.0'', ''H -0.24 0.93 0.0'', ''*'', []]"
  using generate_orca_input_document
    [of "[''O 0.0 0.0 0.0'', ''H 0.96 0.0 0.0'', ''H -0.24 0.93 0.0'']"
        default_method default_basis default_calculation_type]
  by (simp add: default_method_def default_basis_def default_calculation_type_def)

lemma str_contains_append: "str_contains lit (a @ lit @ b)"
proof (induction a)
  case Nil
  have "prefix lit (lit @ b)" by simp
  then show ?case by (cases "lit @ b") auto
next
  case (Cons x a)
  then show ?case by simp
qed

lemma run_after_write:
  "write_file env (input_file d) ic = Inr u \<Longrightarrow>
   run_orca_calculation env ic d =
     (WriteFile (input_file d) ic # fst (try_body env d),
      case snd (try_body env d) of
        Inr res \<Rightarrow> Inr res
      | Inl (TimeoutExpired m) \<Rightarrow> Inr (False, output_file d, timeout_msg)
      | Inl (OtherError msg) \<Rightarrow> Inr (False, output_file d, msg))"
  by (cases "try_body env d") (auto simp: run_orca_calculation_def split: sum.splits error.splits)

subsection \<open>Process Runner\<close>

text \<open>
  C2.  When the output file exists and its text lacks \<open>ORCA TERMINATED NORMALLY\<close>, no
  run is reported as a success; and when the input was written and the child process
  returned, whatever its exit code (zero included) and however long the text, the result
  is the failure triple with the abnormal-termination diagnostic.
\<close>

theorem missing_marker_classified_failed:
  assumes "path_exists env (output_file d)"
    and "read_file env (output_file d) = Inr content"
    and "\<not> str_contains ''ORCA TERMINATED NORMALLY'' content"
  shows "(\<forall>p m. snd (run_orca_calculation env ic d) \<noteq> Inr (True, p, m)) \<and>
         (\<forall>returncode.
            write_file env (input_file d) ic = Inr () \<and>
            subprocess_run env (launch_request d) = Inr returncode \<longrightarrow>
            snd (run_orca_calculation env ic d) = Inr (False, output_file d, abnormal_msg))"
  using assms
  by (auto simp: run_orca_calculation_def try_body_def split: sum.splits error.splits)

theorem missing_marker_classified_failed_witness:
  "snd (run_orca_calculation sample_env ''! B3LYP'' ''/tmp/w'') =
     Inr (False, ''/tmp/w/calculation.out'',
          ''ORCA did not terminate normally. Check output file for errors.'')"
  using missing_marker_classified_failed
    [of sample_env "''/tmp/w''" "''ORCA finished by error termination''" "''! B3LYP''"]
  by (simp add: sample_env_def output_file_def input_file_def os_path_join_def abnormal_msg_def
      launch_request_def)


text \<open>
  C6 as stated fails: \<open>os.listdir\<close> is called inside the \<open>try\<close>, and when it raises, the
  diagnostic is the text of that exception, without the exit code (127 here) and without
  a listing.
\<close>

theorem listdir_failure_counterexample:
  "run_orca_calculation unlistable_env ''! B3LYP'' ''/tmp/w'' =
     ([WriteFile ''/tmp/w/calculation.inp'' ''! B3LYP'',
       Spawn \<lparr>command = ''orca /tmp/w/calculation.inp >& /tmp/w/calculation.out'',
              shell = True, cwd = ''/tmp/w'', timeout = 300\<rparr>,
       Exists ''/tmp/w/calculation.out'', ListDir ''/tmp/w''],
      Inr (False, ''/tmp/w/calculation.out'', ''[Errno 13] Permission denied''))
   \<and> \<not> str_contains ''127'' ''[Errno 13] Permission denied''
   \<and> \<not> str_contains ''calculation.inp'' ''[Errno 13] Permission denied''"
  by (simp add: run_orca_calculation_def try_body_def unlistable_env_def output_file_def
      input_file_def os_path_join_def launch_request_def)

text \<open>
  C6, as the code has it.  When the child process returned and the output file does not
  exist, the run is a failure.  When \<open>os.listdir\<close> returns the listing, the diagnostic is
  the missing-output text: it differs from the abnormal-termination and the timeout
  diagnostics and contains the exit code and the listing of the working directory.  When
  \<open>os.listdir\<close> raises, the handlers of the \<open>try\<close> decide: the diagnostic is the text of
  the exception (the timeout text for a \<open>TimeoutExpired\<close>), with no exit code and no
  listing.
\<close>

theorem missing_output_file_diagnostic:
  assumes "write_file env (input_file d) ic = Inr ()"
    and "subprocess_run env (launch_request d) = Inr returncode"
    and "\<not> path_exists env (output_file d)"
  shows "(\<exists>m. snd (run_orca_calculation env ic d) = Inr (False, output_file d, m))
         \<and> (\<forall>files. listdir env d = Inr files \<longrightarrow>
               run_orca_calculation env ic d =
                 ([WriteFile (input_file d) ic, Spawn (launch_request d),
                   Exists (output_file d), ListDir d],
                  Inr (False, output_file d, missing_output_msg returncode files))
               \<and> missing_output_msg returncode files \<noteq> abnormal_msg
               \<and> missing_output_msg returncode files \<noteq> timeout_msg
               \<and> str_contains (''Return code: '' @ str_int returncode)
                     (missing_output_msg returncode files)
               \<and> str_contains (''Files in temp directory: '' @ repr_list files)
                     (missing_output_msg returncode files))
         \<and> (\<forall>e. listdir env d = Inl e \<longrightarrow>
               run_orca_calculation env ic d =
                 ([WriteFile (input_file d) ic, Spawn (launch_request d),
                   Exists (output_file d), ListDir d],
                  Inr (False, output_file d,
                       case e of TimeoutExpired m \<Rightarrow> timeout_msg | OtherError msg \<Rightarrow> msg)))"
proof (intro conjI allI impI)
  show "\<exists>m. snd (run_orca_calculation env ic d) = Inr (False, output_file d, m)"
    using assms
    by (auto simp: run_orca_calculation_def try_body_def split: sum.splits error.splits)
next
  fix files
  assume "listdir env d = Inr files"
  with assms show "run_orca_calculation env ic d =
           ([WriteFile (input_file d) ic, Spawn (launch_request d),
             Exists (output_file d), ListDir d],
            Inr (False, output_file d, missing_output_msg returncode files))"
    by (simp add: run_orca_calculation_def try_body_def)
next
  fix files
  show "missing_output_msg returncode files \<noteq> abnormal_msg"
    by (simp add: missing_output_msg_def abnormal_msg_def)
next
  fix files
  show "missing_output_msg returncode files \<noteq> timeout_msg"
    by (simp add: missing_output_msg_def timeout_msg_def)
next
  fix files
  have "missing_output_msg returncode files =
          (''ORCA did not create output file.'' @ [nl]) @
          (''Return code: '' @ str_int returncode) @
          ([nl] @ ''Files in temp directory: '' @ repr_list files @ [nl])"
    by (simp add: missing_output_msg_def)
  then show "str_contains (''Return code: '' @ str_int returncode)
               (missing_output_msg returncode files)"
    by (simp only: str_contains_append)
next
  fix files
  have "missing_output_msg returncode files =
          (''ORCA did not create output file.'' @ [nl] @
           ''Return code: '' @ str_int returncode @ [nl]) @
          (''Files in temp directory: '' @ repr_list files) @ [nl]"
    by (simp add: missing_output_msg_def)
  then show "str_contains (''Files in temp directory: '' @ repr_list files)
               (missing_output_msg returncode files)"
    by (simp only: str_contains_append)
next
  fix e
  assume "listdir env d = Inl e"
  with assms show "run_orca_calculation env ic d =
           ([WriteFile (input_file d) ic, Spawn (launch_request d),
             Exists (output_file d), ListDir d],
            Inr (False, output_file d,
                 case e of TimeoutExpired m \<Rightarrow> timeout_msg | OtherError msg \<Rightarrow> msg))"
    by (cases e) (simp_all add: run_orca_calculation_def try_body_def)
qed

theorem missing_output_file_diagnostic_witness:
  "run_orca_calculation no_output_env ''! B3LYP'' ''/tmp/w'' =
     ([WriteFile ''/tmp/w/calculation.inp'' ''! B3LYP'',
       Spawn \<lparr>command = ''orca /tmp/w/calculation.inp >& /tmp/w/calculation.out'',
              shell = True, cwd = ''/tmp/w'', timeout = 300\<rparr>,
       Exists ''/tmp/w/calculation.out'', ListDir ''/tmp/w''],
      Inr (False, ''/tmp/w/calculation.out'',
           ''ORCA did not create output file.'' @ [nl] @ ''Return code: 127'' @ [nl] @
           ''Files in temp directory: ['' @ [CHR 0x27] @ ''calculation.inp'' @ [CHR 0x27]
             @ '']'' @ [nl]))
   \<and> snd (run_orca_calculation unlistable_env ''! B3LYP'' ''/tmp/w'') =
       Inr (False, ''/tmp/w/calculation.out'', ''[Errno 13] Permission denied'')"
  using missing_output_file_diagnostic [of no_output_env "''/tmp/w''" "''! B3LYP''" 127]
    missing_output_file_diagnostic [of unlistable_env "''/tmp/w''" "''! B3LYP''" 127]
  by (simp add: no_output_env_def unlistable_env_def output_file_def input_file_def
      os_path_join_def launch_request_def missing_output_msg_def str_int_def repr_list_def
      repr_str_def repr_quote_def repr_char_def Let_def)

text \<open>
  C7.  The child process is started with a timeout of 300 seconds; when it raises
  \<open>TimeoutExpired\<close> the run is a failure whose diagnostic contains \<open>timed out\<close>,
  and the output file is neither tested for existence nor read.
\<close>

theorem timeout_classified_failed:
  assumes "write_file env (input_file d) ic = Inr ()"
    and "subprocess_run env (launch_request d) = Inl (TimeoutExpired m)"
  shows "timeout (launch_request d) = 300
         \<and> run_orca_calculation env ic d =
             ([WriteFile (input_file d) ic, Spawn (launch_request d)],
              Inr (False, output_file d, timeout_msg))
         \<and> str_contains ''timed out'' timeout_msg
         \<and> (\<forall>p. ReadFile p \<notin> set (fst (run_orca_calculation env ic d)))"
  using assms
  by (simp add: run_orca_calculation_def try_body_def launch_request_def timeout_msg_def)

theorem timeout_classified_failed_witness:
  "run_orca_calculation slow_env ''! B3LYP'' ''/tmp/w'' =
     ([WriteFile ''/tmp/w/calculation.inp'' ''! B3LYP'',
       Spawn \<lparr>command = ''orca /tmp/w/calculation.inp >& /tmp/w/calculation.out'',
              shell = True, cwd = ''/tmp/w'', timeout = 300\<rparr>],
      Inr (False, ''/tmp/w/calculation.out'', ''Calculation timed out after 5 minutes''))"
  using timeout_classified_failed
    [of slow_env "''/tmp/w''" "''! B3LYP''" "''timed out after 300 seconds''"]
  by (simp add: slow_env_def output_file_def input_file_def os_path_join_def
      launch_request_def timeout_msg_def)

text \<open>
  C9.  The engine is not started with redirected streams at the process-spawn level: the
  one process the function starts is a shell command line with the operator \<open>>&\<close>.
\<close>

theorem shell_redirection_counterexample:
  "Spawn \<lparr>command = ''orca /tmp/w/calculation.inp >& /tmp/w/calculation.out'',
          shell = True, cwd = ''/tmp/w'', timeout = 300\<rparr>
     \<in> set (fst (run_orca_calculation sample_env ''! B3LYP'' ''/tmp/w''))
   \<and> str_contains ''>&'' ''orca /tmp/w/calculation.inp >& /tmp/w/calculation.out''"
  by (simp add: run_orca_calculation_def try_body_def sample_env_def output_file_def
      input_file_def os_path_join_def launch_request_def)

text \<open>
  C9, as the code has it.  Every process the function starts is the shell command line
  \<open>orca <input file> >& <output file>\<close>, evaluated by the shell (\<open>shell=True\<close>), with
  the working directory as current directory and a timeout of 300 seconds.
\<close>

theorem engine_launched_through_shell:
  assumes "Spawn req \<in> set (fst (run_orca_calculation env ic d))"
  shows "req = launch_request d
         \<and> shell req
         \<and> command req = ''orca '' @ input_file d @ '' >& '' @ output_file d
         \<and> str_contains ''>&'' (command req)
         \<and> cwd req = d \<and> timeout req = 300"
proof -
  have r: "req = launch_request d"
    using assms
    by (auto simp: run_orca_calculation_def try_body_def
        split: sum.splits error.splits if_splits prod.splits)
  have "command (launch_request d) = (''orca '' @ input_file d @ '' '') @ ''>&'' @ ('' '' @ output_file d)"
    by (simp add: launch_request_def)
  then have "str_contains ''>&'' (command (launch_request d))"
    by (simp only: str_contains_append)
  with r show ?thesis by (simp add: launch_request_def)
qed

theorem engine_launched_through_shell_witness:
  "Spawn (launch_request ''/tmp/w'')
     \<in> set (fst (run_orca_calculation sample_env ''! B3LYP'' ''/tmp/w''))
   \<and> shell (launch_request ''/tmp/w'')
   \<and> command (launch_request ''/tmp/w'') =
       ''orca /tmp/w/calculation.inp >& /tmp/w/calculation.out''"
proof -
  have h: "Spawn (launch_request ''/tmp/w'')
     \<in> set (fst (run_orca_calculation sample_env ''! B3LYP'' ''/tmp/w''))"
    by (simp add: run_orca_calculation_def try_body_def sample_env_def)
  show ?thesis
    using h engine_launched_through_shell [OF h]
    by (simp add: input_file_def output_file_def os_path_join_def)
qed

text \<open>
  C10.  An exception raised while the input file is written leaves the function: nothing
  else is done and no failure triple is returned.  Once the input file is written, the
  engine is launched and every outcome is a triple.
\<close>

theorem write_failure_propagates:
  "(write_file env (input_file d) ic = Inl e \<longrightarrow>
      run_orca_calculation env ic d = ([WriteFile (input_file d) ic], Inl e))
   \<and> (write_file env (input_file d) ic = Inr () \<longrightarrow>
      (\<exists>res. snd (run_orca_calculation env ic d) = Inr res)
      \<and> Spawn (launch_request d) \<in> set (fst (run_orca_calculation env ic d)))"
  by (auto simp: run_orca_calculation_def try_body_def
        split: sum.splits error.splits if_splits prod.splits)

theorem write_failure_propagates_witness:
  "run_orca_calculation readonly_env ''! B3LYP'' ''/tmp/w'' =
     ([WriteFile ''/tmp/w/calculation.inp'' ''! B3LYP''], Inl (OtherError ''Permission denied''))
   \<and> (\<exists>res. snd (run_orca_calculation slow_env ''! B3LYP'' ''/tmp/w'') = Inr res)"
  using write_failure_propagates
      [of readonly_env "''/tmp/w''" "''! B3LYP''" "OtherError ''Permission denied''"]
    write_failure_propagates [of slow_env "''/tmp/w''" "''! B3LYP''"]
  by (simp add: readonly_env_def slow_env_def input_file_def os_path_join_def)

subsection \<open>Output Parser: lines of a coordinate block\<close>

lemma split_ws_all_space: "\<forall>c\<in>set ws. is_space c \<Longrightarrow> split_ws ws = []"
  by (induction ws) auto

lemma split_ws_dropWhile: "split_ws (dropWhile is_space s) = split_ws s"
  by (induction s) auto

lemma split_ws_append_space:
  "\<forall>c\<in>set ws. is_space c \<Longrightarrow> split_ws (s @ ws) = split_ws s"
proof (induction s rule: split_ws.induct)
  case 1
  then show ?case by (simp add: split_ws_all_space)
next
  case (2 x xs)
  show ?case
  proof (cases "is_space x")
    case True
    with 2 show ?thesis by simp
  next
    case nx: False
    show ?thesis
    proof (cases xs)
      case Nil
      with nx 2 show ?thesis
        by (cases ws) (auto simp: split_ws_all_space)
    next
      case (Cons y ys)
      with nx 2 show ?thesis by (cases "is_space y") auto
    qed
  qed
qed

lemma rstrip_decomp: "rev (dropWhile P (rev s)) @ rev (takeWhile P (rev s)) = s"
  by (metis rev_append rev_rev_ident takeWhile_dropWhile_id)

lemma split_ws_rstrip: "split_ws (rev (dropWhile is_space (rev s))) = split_ws s"
proof -
  have "\<forall>c\<in>set (rev (takeWhile is_space (rev s))). is_space c"
    by (auto dest: set_takeWhileD)
  from split_ws_append_space[OF this, of "rev (dropWhile is_space (rev s))"]
  show ?thesis by (simp only: rstrip_decomp)
qed

lemma split_ws_strip: "split_ws (strip s) = split_ws s"
  by (simp add: strip_def split_ws_rstrip split_ws_dropWhile)

lemma split_ws_nonspace:
  assumes "\<not> is_space x"
  shows "\<exists>t ts. split_ws (x # xs) = (x # t) # ts"
proof (cases xs)
  case Nil
  with assms show ?thesis by simp
next
  case (Cons y ys)
  show ?thesis
  proof (cases "is_space y")
    case True
    with assms Cons show ?thesis by simp
  next
    case False
    with assms Cons show ?thesis by (cases "split_ws (y # ys)") simp_all
  qed
qed

lemma split_ws_hd:
  "split_ws s \<noteq> [] \<Longrightarrow>
     dropWhile is_space s \<noteq> [] \<and> hd (split_ws s) \<noteq> [] \<and>
     hd (hd (split_ws s)) = hd (dropWhile is_space s)"
proof (induction s)
  case Nil
  then show ?case by simp
next
  case (Cons x xs)
  show ?case
  proof (cases "is_space x")
    case True
    with Cons show ?thesis by simp
  next
    case False
    from split_ws_nonspace[OF False, of xs] obtain t ts
      where "split_ws (x # xs) = (x # t) # ts" by blast
    with False show ?thesis by simp
  qed
qed

lemma split_ws_empty_iff: "split_ws s = [] \<longleftrightarrow> (\<forall>c\<in>set s. is_space c)"
proof (induction s)
  case Nil
  then show ?case by simp
next
  case (Cons x xs)
  show ?case
  proof (cases "is_space x")
    case True
    with Cons show ?thesis by simp
  next
    case False
    from split_ws_nonspace[OF False, of xs] obtain t ts
      where "split_ws (x # xs) = (x # t) # ts" by blast
    with False show ?thesis by auto
  qed
qed

lemma hd_rstrip:
  assumes "t \<noteq> []" and "\<not> is_space (hd t)"
  shows "rev (dropWhile is_space (rev t)) \<noteq> [] \<and> hd (rev (dropWhile is_space (rev t))) = hd t"
proof -
  obtain x xs where t: "t = x # xs" using assms(1) by (cases t) auto
  with assms(2) have nx: "\<not> is_space x" by simp
  have "dropWhile is_space (rev xs @ [x]) = dropWhile is_space (rev xs) @ [x]"
    using nx by (simp add: dropWhile_append)
  with t show ?thesis by simp
qed

lemma strip_hd:
  assumes "split_ws s \<noteq> []"
  shows "strip s \<noteq> [] \<and> hd (strip s) = hd (hd (split_ws s))"
proof -
  let ?t = "dropWhile is_space s"
  from split_ws_hd[OF assms] have t: "?t \<noteq> []" and h: "hd (hd (split_ws s)) = hd ?t" by auto
  have "\<not> is_space (hd ?t)" using t by (rule hd_dropWhile)
  from hd_rstrip[OF t this] h show ?thesis by (simp add: strip_def)
qed

lemma prefix_dash: "prefix ''-'' s \<longleftrightarrow> s \<noteq> [] \<and> hd s = CHR ''-''"
  by (cases s) auto

lemma atom_line_step_eq:
  "atom_line_step acc l =
     (if (let parts = split_ws l in
            4 \<le> length parts \<and> \<not> prefix ''-'' (parts ! 0) \<and>
            py_float_ok (parts ! 1) \<and> py_float_ok (parts ! 2) \<and> py_float_ok (parts ! 3))
      then acc @ [format_atom (split_ws l)] else acc)"
proof (cases "split_ws l = []")
  case True
  then show ?thesis by (simp add: atom_line_step_def split_ws_strip Let_def)
next
  case False
  have ne: "strip l \<noteq> []" and h: "hd (strip l) = hd (hd (split_ws l))"
    using strip_hd[OF False] by auto
  have t: "hd (split_ws l) \<noteq> []" using split_ws_hd[OF False] by simp
  have z: "split_ws l ! 0 = hd (split_ws l)" using False by (simp add: hd_conv_nth)
  have "prefix ''-'' (strip l) \<longleftrightarrow> prefix ''-'' (split_ws l ! 0)"
    unfolding z prefix_dash using ne h t by simp
  moreover note ne
  ultimately show ?thesis
    by (simp add: atom_line_step_def split_ws_strip Let_def)
qed

lemma foldl_atom_line_step:
  "foldl atom_line_step acc ls =
     acc @ map (\<lambda>l. format_atom (split_ws l))
       (filter (\<lambda>l. let parts = split_ws l in
            4 \<le> length parts \<and> \<not> prefix ''-'' (parts ! 0) \<and>
            py_float_ok (parts ! 1) \<and> py_float_ok (parts ! 2) \<and> py_float_ok (parts ! 3)) ls)"
proof (induction ls arbitrary: acc)
  case Nil
  then show ?case by simp
next
  case (Cons l ls)
  show ?case
    unfolding foldl_Cons Cons.IH atom_line_step_eq[of acc l]
    by (simp add: Let_def)
qed

lemma length_ljust: "length (ljust w s) = max w (length s)"
  by (simp add: ljust_def)

lemma length_rjust: "length (rjust w s) = max w (length s)"
  by (simp add: rjust_def)

text \<open>
  C3, as the code has it.  From the text of a block the parser keeps exactly the lines
  that have at least four whitespace-separated fields, whose first field does not begin
  with \<open>-\<close> and whose second, third and fourth fields are accepted by \<open>float\<close> (the
  \<open>inf\<close> and \<open>nan\<close> spellings included; fields after the fourth are not looked at).
  Every other line is skipped and no line makes the parse fail.  A kept line is rebuilt
  from its first four fields: the element padded on the right to two characters, each
  coordinate padded on the left to twelve, two blanks between the columns, nothing cut.
\<close>

theorem atom_lines_kept_and_formatted:
  "extract_atom_lines text =
     map (\<lambda>l. format_atom (split_ws l))
       (filter (\<lambda>l. let parts = split_ws l in
            4 \<le> length parts \<and> \<not> prefix ''-'' (parts ! 0) \<and>
            py_float_ok (parts ! 1) \<and> py_float_ok (parts ! 2) \<and> py_float_ok (parts ! 3))
         (split_on nl text))
   \<and> (\<forall>el x y z more.
         format_atom (el # x # y # z # more) =
           (el @ replicate (2 - length el) CHR '' '') @ ''  '' @
           (replicate (12 - length x) CHR '' '' @ x) @ ''  '' @
           (replicate (12 - length y) CHR '' '' @ y) @ ''  '' @
           (replicate (12 - length z) CHR '' '' @ z)
         \<and> length (format_atom (el # x # y # z # more)) =
             max 2 (length el) + 2 + max 12 (length x) + 2 + max 12 (length y) + 2
               + max 12 (length z))"
proof (intro conjI allI)
  show "extract_atom_lines text =
     map (\<lambda>l. format_atom (split_ws l))
       (filter (\<lambda>l. let parts = split_ws l in
            4 \<le> length parts \<and> \<not> prefix ''-'' (parts ! 0) \<and>
            py_float_ok (parts ! 1) \<and> py_float_ok (parts ! 2) \<and> py_float_ok (parts ! 3))
         (split_on nl text))"
    by (simp only: extract_atom_lines_def foldl_atom_line_step append_Nil)
next
  fix el x y z :: string and more :: "string list"
  show "format_atom (el # x # y # z # more) =
           (el @ replicate (2 - length el) CHR '' '') @ ''  '' @
           (replicate (12 - length x) CHR '' '' @ x) @ ''  '' @
           (replicate (12 - length y) CHR '' '' @ y) @ ''  '' @
           (replicate (12 - length z) CHR '' '' @ z)"
    by (simp add: format_atom_def ljust_def rjust_def)
  show "length (format_atom (el # x # y # z # more)) =
             max 2 (length el) + 2 + max 12 (length x) + 2 + max 12 (length y) + 2
               + max 12 (length z)"
    by (simp add: format_atom_def length_ljust length_rjust)
qed

theorem atom_lines_kept_and_formatted_witness:
  "extract_atom_lines (''  O   0.000000   0.000000   0.117790'' @ [nl] @ ''H 1.5'' @ [nl] @
       [nl] @ ''------'' @ [nl] @ ''  H   0.000000   0.755453  -0.471161'') =
     [''O       0.000000      0.000000      0.117790'',
      ''H       0.000000      0.755453     -0.471161'']"
  by (subst atom_lines_kept_and_formatted[THEN conjunct1]) code_simp

text \<open>
  C3 as stated fails: the line \<open>H 0.0 0.0 0.0 x\<close> is kept although its last three fields
  are \<open>0.0 0.0 x\<close>, and \<open>H nan inf -inf\<close> is kept although none of its coordinates is
  finite.
\<close>

theorem last_three_fields_counterexample:
  "extract_atom_lines ''H 0.0 0.0 0.0 x'' = [''H            0.0           0.0           0.0'']
   \<and> \<not> spec_keeps_line ''H 0.0 0.0 0.0 x''
   \<and> extract_atom_lines ''H nan inf -inf'' = [''H            nan           inf          -inf'']
   \<and> \<not> spec_keeps_line ''H nan inf -inf''"
  by code_simp


subsection \<open>Output Parser: exceptions\<close>

text \<open>
  C8.  \<open>parse_orca_output\<close> always returns a triple.  When reading the file raises an
  exception \<open>e\<close>, energy and geometry are both \<open>Error: \<close> followed by \<open>str(e)\<close>; when
  the file is read, the triple is the parsed energy, the parsed geometry and the text.
\<close>

theorem parse_orca_output_never_raises:
  "(\<exists>energy geometry raw. parse_orca_output env f = Inr (energy, geometry, raw))
   \<and> (\<forall>e. read_file env f = Inl e \<longrightarrow>
         parse_orca_output env f =
           Inr (''Error: '' @ str_error e, ''Error: '' @ str_error e, str_error e))
   \<and> (\<forall>content. read_file env f = Inr content \<longrightarrow>
         parse_orca_output env f =
           Inr (parse_energy content, parse_geometry content, content))"
  by (auto simp: parse_orca_output_def split: sum.splits)

theorem parse_orca_output_never_raises_witness:
  "parse_orca_output readonly_env ''/tmp/w/calculation.out'' =
     Inr (''Error: No such file or directory'', ''Error: No such file or directory'',
          ''No such file or directory'')"
  using parse_orca_output_never_raises [of readonly_env "''/tmp/w/calculation.out''"]
  by (simp add: readonly_env_def str_error_def)

subsection \<open>The matcher on runs of a class\<close>

lemma suffixes_Nil_first: "\<exists>r. suffixes ds = [] # r"
  by (induction ds) auto

lemma star_cls_Nil: "matches (Star (Cls k)) ([], c) = [([], c)]"
  by simp

lemma star_cls_Cons:
  "matches (Star (Cls k)) (x # xs, c) =
     (if in_class k x then matches (Star (Cls k)) (xs, c) @ [(x # xs, c)] else [(x # xs, c)])"
  by simp

lemma star_cls_stop:
  "t = [] \<or> \<not> in_class k (hd t) \<Longrightarrow> matches (Star (Cls k)) (t, c) = [(t, c)]"
  by (cases t) (simp_all add: star_cls_Cons star_cls_Nil del: matches.simps)

lemma star_cls_run:
  assumes "\<forall>x\<in>set ds. in_class k x" and "t = [] \<or> \<not> in_class k (hd t)"
  shows "matches (Star (Cls k)) (ds @ t, c) = map (\<lambda>u. (u @ t, c)) (suffixes ds)"
  using assms(1)
proof (induction ds)
  case Nil
  then show ?case using star_cls_stop[OF assms(2)] by simp
next
  case (Cons x ds)
  then show ?case by (simp add: star_cls_Cons del: matches.simps)
qed

lemma fm_Seq:
  "first_match r1 st = Some x \<Longrightarrow> first_match r2 x = Some y \<Longrightarrow>
   first_match (Seq r1 r2) st = Some y"
  by (auto simp: first_match_def split: list.splits)

lemma fm_Seq_second:
  "matches r1 st = x1 # x2 # xs \<Longrightarrow> matches r2 x1 = [] \<Longrightarrow>
   first_match r2 x2 = Some y \<Longrightarrow> first_match (Seq r1 r2) st = Some y"
  by (auto simp: first_match_def split: list.splits)

lemma fm_star_cls_run:
  assumes "\<forall>x\<in>set ds. in_class k x" and "t = [] \<or> \<not> in_class k (hd t)"
  shows "first_match (Star (Cls k)) (ds @ t, c) = Some (t, c)"
proof -
  obtain r where "suffixes ds = [] # r" using suffixes_Nil_first by blast
  then show ?thesis
    unfolding first_match_def star_cls_run[OF assms] by simp
qed

lemma fm_Cls: "in_class k x \<Longrightarrow> first_match (Cls k) (x # t, c) = Some (t, c)"
  by (simp add: first_match_def)

lemma fm_Lit: "first_match (Lit l) (l @ t, c) = Some (t, c)"
  by (simp add: first_match_def)

lemma fm_plus_cls_run:
  assumes "ds \<noteq> []" and "\<forall>x\<in>set ds. in_class k x" and "t = [] \<or> \<not> in_class k (hd t)"
  shows "first_match (Plus (Cls k)) (ds @ t, c) = Some (t, c)"
proof -
  obtain d ds' where ds: "ds = d # ds'" using assms(1) by (cases ds) auto
  have 1: "first_match (Cls k) (ds @ t, c) = Some (ds' @ t, c)"
    using assms(2) ds by (simp add: fm_Cls)
  have 2: "first_match (Star (Cls k)) (ds' @ t, c) = Some (t, c)"
    using assms(2,3) ds by (intro fm_star_cls_run) auto
  show ?thesis unfolding Plus_def by (rule fm_Seq[OF 1 2])
qed

lemma fm_Opt_take: "first_match r st = Some y \<Longrightarrow> first_match (Opt r) st = Some y"
  by (auto simp: first_match_def Opt_def split: list.splits)

lemma fm_Opt_skip: "matches r st = [] \<Longrightarrow> first_match (Opt r) st = Some st"
  by (simp add: first_match_def Opt_def)

lemma matches_Opt_skip: "matches r st = [] \<Longrightarrow> matches (Opt r) st = [st]"
  by (simp add: Opt_def)

lemma fm_Group:
  "first_match r (s, c) = Some (s', c') \<Longrightarrow>
   first_match (Group n r) (s, c) = Some (s', (n, take (length s - length s') s) # c')"
  by (auto simp: first_match_def split: list.splits)

lemma matches_Cls_fail: "t = [] \<or> \<not> in_class k (hd t) \<Longrightarrow> matches (Cls k) (t, c) = []"
  by (cases t) auto

lemma matches_Seq_fail: "matches r1 st = [] \<Longrightarrow> matches (Seq r1 r2) st = []"
  by simp

lemma matches_Lit_fail: "\<not> prefix l s \<Longrightarrow> matches (Lit l) (s, c) = []"
  by simp

subsection \<open>Output Parser: the energy\<close>

lemma exponent_skip:
  assumes "ends_number post"
  shows "matches exponent_pattern (post, c) = []"
  using assms
  by (cases post) (auto simp: exponent_pattern_def ends_number_def)

lemma ends_number_nodigit: "ends_number post \<Longrightarrow> post = [] \<or> \<not> in_class Digit (hd post)"
  by (cases post) (auto simp: ends_number_def)

lemma digits_nosign:
  assumes "ds \<noteq> []" and "list_all is_digit ds"
  shows "\<not> in_class (OneOf ''-+'') (hd ds)"
  using assms by (cases ds) (auto simp: is_digit_def)

lemma exponent_take:
  assumes "opt_exponent (e # r)" and "ends_number post"
  shows "first_match exponent_pattern ((e # r) @ post, c) = Some (post, c)"
proof -
  let ?ds = "skip_sign r"
  from assms(1) have e: "in_class (OneOf ''eE'') e" and ne: "?ds \<noteq> []"
    and dg: "list_all is_digit ?ds"
    by (auto simp: opt_exponent_def)
  have 1: "first_match (Cls (OneOf ''eE'')) ((e # r) @ post, c) = Some (r @ post, c)"
    using e by (simp add: fm_Cls)
  have 3: "first_match (Plus (Cls Digit)) (?ds @ post, c) = Some (post, c)"
    using ne dg ends_number_nodigit[OF assms(2)]
    by (intro fm_plus_cls_run) (auto simp: list_all_iff)
  have 2: "first_match (Opt (Cls (OneOf ''-+''))) (r @ post, c) = Some (?ds @ post, c)"
  proof (cases "r = ?ds")
    case True
    then have "\<not> in_class (OneOf ''-+'') (hd (r @ post))"
      using digits_nosign[OF ne dg] ne by simp
    then have "matches (Cls (OneOf ''-+'')) (r @ post, c) = []"
      by (intro matches_Cls_fail) simp
    from fm_Opt_skip[OF this] True show ?thesis by simp
  next
    case False
    then obtain s where r: "r = s # ?ds" and s: "s = CHR ''+'' \<or> s = CHR ''-''"
      by (cases r) (auto simp: skip_sign_def split: if_splits)
    have "first_match (Cls (OneOf ''-+'')) (s # ?ds @ post, c) = Some (?ds @ post, c)"
      using s by (intro fm_Cls) auto
    from fm_Opt_take[OF this] r show ?thesis by (metis append_Cons)
  qed
  show ?thesis
    unfolding exponent_pattern_def seq.simps
    by (rule fm_Seq[OF 1 fm_Seq[OF 2 3]])
qed

lemma opt_exponent_fm:
  assumes "opt_exponent ex" and "ends_number post"
  shows "first_match (Opt exponent_pattern) (ex @ post, c) = Some (post, c)"
proof (cases ex)
  case Nil
  with fm_Opt_skip[OF exponent_skip[OF assms(2)]] show ?thesis by simp
next
  case (Cons e r)
  with fm_Opt_take[OF exponent_take[OF _ assms(2)]] assms(1) show ?thesis by simp
qed

lemma tail_nodigit:
  assumes "opt_exponent ex" and "ends_number post"
  shows "ex @ post = [] \<or> \<not> in_class Digit (hd (ex @ post))"
    and "\<not> prefix ''.'' (ex @ post)"
  using assms
  by (cases ex; cases post; auto simp: opt_exponent_def ends_number_def is_digit_def)+

lemma fraction_fm:
  assumes "fp \<noteq> []" and "list_all is_digit fp" and "opt_exponent ex" and "ends_number post"
  shows "first_match (Seq (Plus (Cls Digit)) (Opt exponent_pattern)) (fp @ ex @ post, c)
           = Some (post, c)"
proof -
  have 1: "first_match (Plus (Cls Digit)) (fp @ ex @ post, c) = Some (ex @ post, c)"
    using assms(1,2) tail_nodigit(1)[OF assms(3,4)]
    by (intro fm_plus_cls_run) (auto simp: list_all_iff)
  show ?thesis by (rule fm_Seq[OF 1 opt_exponent_fm[OF assms(3,4)]])
qed

lemma unsigned_fm:
  assumes "list_all is_digit ip" and "opt_point dot" and "fp \<noteq> []" and "list_all is_digit fp"
    and "opt_exponent ex" and "ends_number post"
  shows "first_match
           (Seq (Star (Cls Digit))
              (Seq (Opt (Lit ''.'')) (Seq (Plus (Cls Digit)) (Opt exponent_pattern))))
           (ip @ dot @ fp @ ex @ post, c) = Some (post, c)"
proof (cases "dot = []")
  case False
  with assms(2) have dot: "dot = ''.''" by (simp add: opt_point_def)
  have 1: "first_match (Star (Cls Digit)) (ip @ ''.'' @ fp @ ex @ post, c)
             = Some (''.'' @ fp @ ex @ post, c)"
    using assms(1) by (intro fm_star_cls_run) (auto simp: list_all_iff is_digit_def)
  have 2: "first_match (Opt (Lit ''.'')) (''.'' @ fp @ ex @ post, c) = Some (fp @ ex @ post, c)"
    by (rule fm_Opt_take[OF fm_Lit])
  show ?thesis
    unfolding dot
    by (rule fm_Seq[OF 1 fm_Seq[OF 2 fraction_fm[OF assms(3-6)]]])
next
  case True
  let ?T = "ex @ post"
  let ?K = "Seq (Opt (Lit ''.'')) (Seq (Plus (Cls Digit)) (Opt exponent_pattern))"
  obtain fp' d where fp: "fp = fp' @ [d]" using assms(3) by (metis rev_exhaust)
  with assms(4) have d: "is_digit d" and fp': "list_all is_digit fp'" by auto
  obtain r where r: "suffixes (ip @ fp') = [] # r" using suffixes_Nil_first by blast
  have sf: "suffixes ((ip @ fp') @ [d]) = [] # [d] # map (\<lambda>ys. ys @ [d]) r"
    unfolding suffixes_snoc r by simp
  have tx: "ip @ dot @ fp @ ?T = ((ip @ fp') @ [d]) @ ?T"
    using True fp by simp
  have run: "matches (Star (Cls Digit)) (((ip @ fp') @ [d]) @ ?T, c)
          = map (\<lambda>u. (u @ ?T, c)) (suffixes ((ip @ fp') @ [d]))"
    using assms(1) fp' d tail_nodigit(1)[OF assms(5,6)]
    by (intro star_cls_run) (auto simp: list_all_iff)
  have m: "matches (Star (Cls Digit)) (ip @ dot @ fp @ ?T, c)
          = (?T, c) # (d # ?T, c) # map (\<lambda>u. (u @ ?T, c)) (map (\<lambda>ys. ys @ [d]) r)"
    unfolding tx run sf by simp
  have nodot: "matches (Lit ''.'') (?T, c) = []"
    using tail_nodigit(2)[OF assms(5,6)] by (intro matches_Lit_fail)
  have "matches (Cls Digit) (?T, c) = []"
    using tail_nodigit(1)[OF assms(5,6)] by (rule matches_Cls_fail)
  then have "matches (Seq (Plus (Cls Digit)) (Opt exponent_pattern)) (?T, c) = []"
    by (simp add: Plus_def del: matches.simps(5,6,7))
  then have k1: "matches ?K (?T, c) = []"
    using matches_Opt_skip[OF nodot] by (simp del: matches.simps(5,6,7))
  have "\<not> prefix ''.'' (d # ?T)" using d by (auto simp: is_digit_def)
  then have "matches (Lit ''.'') (d # ?T, c) = []" by (intro matches_Lit_fail)
  from fm_Opt_skip[OF this]
  have 2: "first_match (Opt (Lit ''.'')) (d # ?T, c) = Some ([d] @ ?T, c)" by simp
  have 3: "first_match (Seq (Plus (Cls Digit)) (Opt exponent_pattern)) ([d] @ ex @ post, c)
             = Some (post, c)"
    using d by (intro fraction_fm assms(5,6)) auto
  have k2: "first_match ?K (d # ?T, c) = Some (post, c)"
    by (rule fm_Seq[OF 2 3])
  show ?thesis by (rule fm_Seq_second[OF m k1 k2])
qed

lemma number_fm:
  assumes "opt_sign sg" and "list_all is_digit ip" and "opt_point dot"
    and "fp \<noteq> []" and "list_all is_digit fp" and "opt_exponent ex" and "ends_number post"
  shows "first_match number_pattern (sg @ ip @ dot @ fp @ ex @ post, c) = Some (post, c)"
proof -
  let ?X = "ip @ dot @ fp @ ex @ post"
  have 1: "first_match (Opt (Cls (OneOf ''-+''))) (sg @ ?X, c) = Some (?X, c)"
  proof (cases "sg = []")
    case True
    have "?X \<noteq> []" using assms(4) by simp
    moreover have "hd ?X \<noteq> CHR ''-'' \<and> hd ?X \<noteq> CHR ''+''"
      using assms(2,3,4,5)
      by (cases ip; cases dot; cases fp) (auto simp: opt_point_def is_digit_def)
    ultimately have "matches (Cls (OneOf ''-+'')) (?X, c) = []"
      by (intro matches_Cls_fail) auto
    from fm_Opt_skip[OF this] True show ?thesis by simp
  next
    case False
    with assms(1) obtain s where s: "sg = [s]" "in_class (OneOf ''-+'') s"
      by (auto simp: opt_sign_def)
    then show ?thesis using fm_Opt_take[OF fm_Cls[OF s(2), of ?X c]] by simp
  qed
  show ?thesis
    unfolding number_pattern_def seq.simps
    by (rule fm_Seq[OF 1 unsigned_fm[OF assms(2-7)]])
qed

lemma prefix_cut: "prefix l (a @ b) \<Longrightarrow> length l \<le> length a \<Longrightarrow> prefix l a"
  by (metis prefix_length_prefix prefixI)

lemma not_begins_inside_Cons:
  assumes "l \<noteq> []" and "\<not> begins_inside l (x # pre)"
  shows "\<not> prefix l (x # pre @ l @ rest)" and "\<not> begins_inside l pre"
proof -
  from assms(2) have np: "\<not> prefix l (x # pre @ butlast l)"
    and nb: "\<not> str_contains l (pre @ butlast l)"
    by (auto simp: begins_inside_def)
  from nb show "\<not> begins_inside l pre" by (simp add: begins_inside_def)
  show "\<not> prefix l (x # pre @ l @ rest)"
  proof
    assume p: "prefix l (x # pre @ l @ rest)"
    have "x # pre @ l @ rest = (x # pre @ butlast l) @ (last l # rest)"
      using assms(1) by simp
    with p have "prefix l ((x # pre @ butlast l) @ (last l # rest))" by simp
    moreover have "length l \<le> length (x # pre @ butlast l)" using assms(1) by simp
    ultimately have "prefix l (x # pre @ butlast l)" by (rule prefix_cut)
    with np show False by simp
  qed
qed

lemma search_skip:
  assumes np: "\<And>s. \<not> prefix l s \<Longrightarrow> first_match r (s, []) = None"
    and "l \<noteq> []" and "\<not> begins_inside l pre"
  shows "search r (pre @ l @ rest) = search r (l @ rest)"
  using assms(3)
proof (induction pre)
  case Nil
  then show ?case by simp
next
  case (Cons x pre)
  have 1: "\<not> prefix l (x # pre @ l @ rest)"
    by (rule not_begins_inside_Cons(1)[OF assms(2) Cons.prems])
  have 2: "\<not> begins_inside l pre"
    by (rule not_begins_inside_Cons(2)[OF assms(2) Cons.prems])
  from np[OF 1] Cons.IH[OF 2] show ?case by simp
qed

lemma search_none:
  assumes np: "\<And>s. \<not> prefix l s \<Longrightarrow> first_match r (s, []) = None"
    and "l \<noteq> []" and "\<not> str_contains l s"
  shows "search r s = None"
  using assms(3)
proof (induction s)
  case Nil
  have "\<not> prefix l []" using assms(2) by simp
  from np[OF this] show ?case by simp
next
  case (Cons x xs)
  then have "\<not> prefix l (x # xs)" and "\<not> str_contains l xs" by auto
  with np Cons.IH show ?case by simp
qed

lemma search_found:
  "s \<noteq> [] \<Longrightarrow> first_match r (s, []) = Some (e, c) \<Longrightarrow> search r s = Some (s, e, c)"
  by (cases s) auto

lemma energy_no_label:
  "\<not> prefix energy_label s \<Longrightarrow> first_match energy_pattern (s, c) = None"
  by (simp add: energy_pattern_def first_match_def del: matches.simps(5,6,7))

lemma energy_at:
  assumes "ws \<noteq> []" and "list_all is_space ws"
    and "opt_sign sg" and "list_all is_digit ip" and "opt_point dot"
    and "fp \<noteq> []" and "list_all is_digit fp" and "opt_exponent ex" and "ends_number post"
  shows "first_match energy_pattern (energy_label @ ws @ (sg @ ip @ dot @ fp @ ex) @ post, c)
           = Some (post, (1, sg @ ip @ dot @ fp @ ex) # c)"
proof -
  define num where "num = sg @ ip @ dot @ fp @ ex"
  have nn: "num \<noteq> []" using assms(6) by (simp add: num_def)
  have "\<not> is_space (hd num)"
    using assms(3,4,5,6,7) unfolding num_def
    by (cases sg; cases ip; cases dot; cases fp)
       (auto simp: opt_sign_def opt_point_def is_digit_def is_space_def)
  then have ns: "num @ post = [] \<or> \<not> in_class Space (hd (num @ post))"
    using nn by simp
  have 1: "first_match (Lit energy_label) (energy_label @ ws @ num @ post, c)
             = Some (ws @ num @ post, c)"
    by (rule fm_Lit)
  have 2: "first_match (Plus (Cls Space)) (ws @ num @ post, c) = Some (num @ post, c)"
    using assms(1,2) ns by (intro fm_plus_cls_run) (auto simp: list_all_iff)
  have "first_match number_pattern (sg @ ip @ dot @ fp @ ex @ post, c) = Some (post, c)"
    by (rule number_fm[OF assms(3-9)])
  then have "first_match number_pattern (num @ post, c) = Some (post, c)"
    by (simp add: num_def)
  from fm_Group[OF this, of 1]
  have 3: "first_match (Group 1 number_pattern) (num @ post, c) = Some (post, (1, num) # c)"
    by simp
  have "first_match energy_pattern (energy_label @ ws @ num @ post, c)
           = Some (post, (1, num) # c)"
    unfolding energy_pattern_def seq.simps
    by (rule fm_Seq[OF 1 fm_Seq[OF 2 3]])
  then show ?thesis by (simp add: num_def)
qed

text \<open>From here on the two repetition equations are unfolded by hand.\<close>

declare matches.simps(6,7) [simp del]
declare findall.simps [simp del]

subsection \<open>A match never lengthens the remaining text\<close>

text \<open>Hence the length tests of \<open>findall\<close> only separate an empty match from a
  non-empty one.\<close>

lemma matches_length:
  "st' \<in> set (matches r st) \<Longrightarrow> length (fst st') \<le> length (fst st)"
proof (induction r st arbitrary: st' rule: matches.induct)
  case (1 st)
  then show ?case by simp
next
  case (2 l st)
  then show ?case by (auto split: if_splits)
next
  case (3 k st)
  then show ?case by (cases "fst st") (auto split: if_splits)
next
  case (4 r1 r2 st)
  from "4.prems" obtain m where m: "m \<in> set (matches r1 st)" and s: "st' \<in> set (matches r2 m)"
    by auto
  from "4.IH"(1)[OF m] "4.IH"(2)[OF m s] show ?case by simp
next
  case (5 r1 r2 st)
  from "5.prems" have "st' \<in> set (matches r1 st) \<or> st' \<in> set (matches r2 st)" by simp
  then show ?case using "5.IH" by blast
next
  case (6 r st)
  from "6.prems" have "st' = st \<or> (\<exists>m\<in>set (matches r st).
      length (fst m) < length (fst st) \<and> st' \<in> set (matches (Star r) m))"
    by (subst (asm) matches.simps(6)) (auto split: if_splits)
  then show ?case
  proof
    assume "st' = st"
    then show ?thesis by simp
  next
    assume "\<exists>m\<in>set (matches r st).
      length (fst m) < length (fst st) \<and> st' \<in> set (matches (Star r) m)"
    then obtain m where m: "m \<in> set (matches r st)" "length (fst m) < length (fst st)"
      "st' \<in> set (matches (Star r) m)" by blast
    from "6.IH"(2)[OF m(1) m(2) m(3)] m(2) show ?thesis by simp
  qed
next
  case (7 r st)
  from "7.prems" have "st' = st \<or> (\<exists>m\<in>set (matches r st).
      length (fst m) < length (fst st) \<and> st' \<in> set (matches (LazyStar r) m))"
    by (subst (asm) matches.simps(7)) (auto split: if_splits)
  then show ?case
  proof
    assume "st' = st"
    then show ?thesis by simp
  next
    assume "\<exists>m\<in>set (matches r st).
      length (fst m) < length (fst st) \<and> st' \<in> set (matches (LazyStar r) m)"
    then obtain m where m: "m \<in> set (matches r st)" "length (fst m) < length (fst st)"
      "st' \<in> set (matches (LazyStar r) m)" by blast
    from "7.IH"(2)[OF m(1) m(2) m(3)] m(2) show ?thesis by simp
  qed
next
  case (8 n r st)
  from "8.prems" obtain m where "m \<in> set (matches r st)" and "fst st' = fst m" by auto
  then show ?case using "8.IH" by simp
next
  case (9 r st)
  then show ?case by (auto split: list.splits)
qed

lemma search_length:
  "search r s = Some (b, e, c) \<Longrightarrow> length e \<le> length b \<and> length b \<le> length s"
proof (induction s)
  case Nil
  then obtain st where "first_match r ([], []) = Some st" and "st = (e, c)" and "b = []"
    by (auto split: option.splits)
  then have "(e, c) \<in> set (matches r ([], []))"
    by (auto simp: first_match_def split: list.splits)
  from matches_length[OF this] \<open>b = []\<close> show ?case by simp
next
  case (Cons x xs)
  show ?case
  proof (cases "first_match r (x # xs, [])")
    case None
    with Cons show ?thesis by auto
  next
    case (Some st)
    with Cons.prems have st: "st = (e, c)" and b: "b = x # xs" by auto
    from Some st have "(e, c) \<in> set (matches r (x # xs, []))"
      by (auto simp: first_match_def split: list.splits)
    from matches_length[OF this] b show ?thesis by simp
  qed
qed

subsection \<open>Output Parser: the energy and the scanner\<close>

lemma sign_part:
  shows "take (length s - length (skip_sign s)) s @ skip_sign s = s"
    and "opt_sign (take (length s - length (skip_sign s)) s)"
    and "take (length s - length (skip_sign s)) s = [] \<Longrightarrow>
           s = [] \<or> \<not> in_class (OneOf ''-+'') (hd s)"
  by (cases s; auto simp: skip_sign_def opt_sign_def)+

lemma sign_then:
  assumes "opt_sign sg"
    and "sg = [] \<Longrightarrow> x = [] \<or> \<not> in_class (OneOf ''-+'') (hd x)"
    and "first_match r (x, c) = Some y"
  shows "first_match (Seq (Opt (Cls (OneOf ''-+''))) r) (sg @ x, c) = Some y"
proof -
  have "first_match (Opt (Cls (OneOf ''-+''))) (sg @ x, c) = Some (x, c)"
  proof (cases "sg = []")
    case True
    from assms(2)[OF True] have "matches (Cls (OneOf ''-+'')) (x, c) = []"
      by (rule matches_Cls_fail)
    from fm_Opt_skip[OF this] True show ?thesis by simp
  next
    case False
    with assms(1) obtain s where s: "sg = [s]" "in_class (OneOf ''-+'') s"
      by (auto simp: opt_sign_def)
    then show ?thesis using fm_Opt_take[OF fm_Cls[OF s(2), of x c]] by simp
  qed
  from fm_Seq[OF this assms(3)] show ?thesis .
qed

lemma exponent_run:
  assumes "in_class (OneOf ''eE'') e" and "opt_sign sg" and "ds \<noteq> []"
    and "list_all is_digit ds" and "post = [] \<or> \<not> in_class Digit (hd post)"
  shows "first_match exponent_pattern (e # sg @ ds @ post, c) = Some (post, c)"
proof -
  have 1: "first_match (Cls (OneOf ''eE'')) (e # sg @ ds @ post, c) = Some (sg @ ds @ post, c)"
    using assms(1) by (rule fm_Cls)
  have 3: "first_match (Plus (Cls Digit)) (ds @ post, c) = Some (post, c)"
    using assms(3,4,5) by (intro fm_plus_cls_run) (auto simp: list_all_iff)
  have "ds @ post = [] \<or> \<not> in_class (OneOf ''-+'') (hd (ds @ post))"
    using digits_nosign[OF assms(3,4)] assms(3) by simp
  from sign_then[OF assms(2) this 3]
  have "first_match (Seq (Opt (Cls (OneOf ''-+''))) (Plus (Cls Digit))) (sg @ ds @ post, c)
          = Some (post, c)" .
  from fm_Seq[OF 1 this] show ?thesis
    by (simp add: exponent_pattern_def)
qed

lemma plus_digit_fail:
  "t = [] \<or> \<not> in_class Digit (hd t) \<Longrightarrow> matches (Seq (Plus (Cls Digit)) r) (t, c) = []"
  by (simp add: Plus_def matches_Cls_fail del: matches.simps(3,6))

lemma exponent_none:
  assumes "spec_exponent w = []"
  shows "matches exponent_pattern (w, c) = []"
proof (cases w)
  case Nil
  then show ?thesis by (simp add: exponent_pattern_def)
next
  case (Cons e r)
  show ?thesis
  proof (cases "e = CHR ''e'' \<or> e = CHR ''E''")
    case False
    with Cons show ?thesis by (auto simp: exponent_pattern_def)
  next
    case True
    with assms Cons have nd: "skip_sign r = [] \<or> \<not> in_class Digit (hd (skip_sign r))"
      by (auto simp: spec_exponent_def split: if_splits)
    have p: "matches (Plus (Cls Digit)) (skip_sign r, c) = []"
      using nd by (simp add: Plus_def matches_Cls_fail del: matches.simps(3,6))
    have inner: "matches (Seq (Opt (Cls (OneOf ''-+''))) (Plus (Cls Digit))) (r, c) = []"
    proof (cases "r = skip_sign r")
      case same: True
      then have "r = [] \<or> \<not> in_class Digit (hd r)" using nd by simp
      then have q: "matches (Plus (Cls Digit)) (r, c) = []"
        by (simp add: Plus_def matches_Cls_fail del: matches.simps(3,6))
      show ?thesis
      proof (cases r)
        case Nil
        with q show ?thesis by (simp add: Opt_def)
      next
        case (Cons x r')
        with q p show ?thesis
          by (auto simp: Opt_def skip_sign_def split: if_splits)
      qed
    next
      case False
      then obtain x where r: "r = x # skip_sign r" and x: "x = CHR ''+'' \<or> x = CHR ''-''"
        by (cases r) (auto simp: skip_sign_def split: if_splits)
      have "\<not> in_class Digit x" using x by (auto simp: is_digit_def)
      then have q: "matches (Plus (Cls Digit)) (x # skip_sign r, c) = []"
        by (simp add: Plus_def del: matches.simps(6))
      have "matches (Seq (Opt (Cls (OneOf ''-+''))) (Plus (Cls Digit))) (x # skip_sign r, c) = []"
        using x p q by (auto simp: Opt_def simp del: matches.simps(6))
      with r show ?thesis by simp
    qed
    have "matches (Cls (OneOf ''eE'')) (e # r, c) = [(r, c)]"
      using True by auto
    then have "matches (Seq (Cls (OneOf ''eE''))
                 (Seq (Opt (Cls (OneOf ''-+''))) (Plus (Cls Digit)))) (e # r, c) = []"
      unfolding matches.simps(4)[of "Cls (OneOf ''eE'')"] using inner by simp
    with Cons show ?thesis by (simp add: exponent_pattern_def)
  qed
qed

lemma exponent_general:
  "\<exists>post. w = spec_exponent w @ post \<and>
          first_match (Opt exponent_pattern) (w, c) = Some (post, c)"
proof (cases "spec_exponent w = []")
  case True
  from fm_Opt_skip[OF exponent_none[OF True]] True show ?thesis by simp
next
  case False
  then obtain e r where w: "w = e # r" and e: "e = CHR ''e'' \<or> e = CHR ''E''"
    and ne: "skip_sign r \<noteq> []" and d: "is_digit (hd (skip_sign r))"
    by (cases w) (auto simp: spec_exponent_def split: if_splits)
  let ?sg = "take (length r - length (skip_sign r)) r"
  let ?ds = "takeWhile is_digit (skip_sign r)"
  let ?post = "dropWhile is_digit (skip_sign r)"
  have r: "r = ?sg @ ?ds @ ?post" using sign_part(1)[of r] by simp
  have ds: "?ds \<noteq> []" using ne d by (cases "skip_sign r") auto
  have se: "spec_exponent w = e # ?sg @ ?ds"
    using w e ne d by (simp add: spec_exponent_def)
  have "?post = [] \<or> \<not> in_class Digit (hd ?post)"
    using hd_dropWhile[of is_digit "skip_sign r"] by auto
  then have "first_match exponent_pattern (e # ?sg @ ?ds @ ?post, c) = Some (?post, c)"
    using e ds sign_part(2)[of r]
    by (intro exponent_run) (auto simp: list_all_iff dest: set_takeWhileD)
  then have "first_match exponent_pattern (w, c) = Some (?post, c)"
    using w r by simp
  from fm_Opt_take[OF this] have "first_match (Opt exponent_pattern) (w, c) = Some (?post, c)" .
  moreover have "w = spec_exponent w @ ?post" using se w r by simp
  ultimately show ?thesis by blast
qed

lemma point_digit_tl:
  "\<not> point_digit w \<Longrightarrow> prefix ''.'' w \<Longrightarrow> tl w = [] \<or> \<not> in_class Digit (hd (tl w))"
  by (cases w; cases "tl w") (auto simp: point_digit_def)

lemma after_digits_fail:
  assumes "w = [] \<or> \<not> in_class Digit (hd w)" and "\<not> point_digit w"
  shows "matches (Seq (Opt (Lit ''.'')) (Seq (Plus (Cls Digit)) r)) (w, c) = []"
proof (cases "prefix ''.'' w")
  case False
  then have "matches (Opt (Lit ''.'')) (w, c) = [(w, c)]"
    by (simp add: Opt_def)
  then show ?thesis
    unfolding matches.simps(4)[of "Opt (Lit ''.'')"]
    using plus_digit_fail[OF assms(1), of r c] by simp
next
  case True
  then obtain w' where w: "w = CHR ''.'' # w'" by (cases w) auto
  then have o: "matches (Opt (Lit ''.'')) (w, c) = [(w', c), (w, c)]"
    by (simp add: Opt_def)
  have "w' = [] \<or> \<not> in_class Digit (hd w')"
    using point_digit_tl[OF assms(2) True] w by simp
  from plus_digit_fail[OF this, of r c] plus_digit_fail[OF assms(1), of r c]
  show ?thesis
    unfolding matches.simps(4)[of "Opt (Lit ''.'')"] o by simp
qed

lemma unsigned_general:
  assumes "list_all is_digit ip" and "opt_point dot" and "fp \<noteq> []" and "list_all is_digit fp"
    and "w = [] \<or> \<not> in_class Digit (hd w)" and "dot = [] \<Longrightarrow> \<not> point_digit w"
    and "first_match (Opt exponent_pattern) (w, c) = Some (post, c)"
  shows "first_match
           (Seq (Star (Cls Digit))
              (Seq (Opt (Lit ''.'')) (Seq (Plus (Cls Digit)) (Opt exponent_pattern))))
           (ip @ dot @ fp @ w, c) = Some (post, c)"
proof -
  have frac: "first_match (Seq (Plus (Cls Digit)) (Opt exponent_pattern)) (ds @ w, c)
                = Some (post, c)" if "ds \<noteq> []" and "list_all is_digit ds" for ds
  proof -
    have "first_match (Plus (Cls Digit)) (ds @ w, c) = Some (w, c)"
      using that assms(5) by (intro fm_plus_cls_run) (auto simp: list_all_iff)
    from fm_Seq[OF this assms(7)] show ?thesis .
  qed
  show ?thesis
  proof (cases "dot = []")
    case False
    with assms(2) have dot: "dot = ''.''" by (simp add: opt_point_def)
    have 1: "first_match (Star (Cls Digit)) (ip @ ''.'' @ fp @ w, c)
               = Some (''.'' @ fp @ w, c)"
      using assms(1) by (intro fm_star_cls_run) (auto simp: list_all_iff is_digit_def)
    have 2: "first_match (Opt (Lit ''.'')) (''.'' @ fp @ w, c) = Some (fp @ w, c)"
      by (rule fm_Opt_take[OF fm_Lit])
    show ?thesis
      unfolding dot
      by (rule fm_Seq[OF 1 fm_Seq[OF 2 frac[OF assms(3,4)]]])
  next
    case True
    let ?K = "Seq (Opt (Lit ''.'')) (Seq (Plus (Cls Digit)) (Opt exponent_pattern))"
    obtain fp' d where fp: "fp = fp' @ [d]" using assms(3) by (metis rev_exhaust)
    with assms(4) have d: "is_digit d" and fp': "list_all is_digit fp'" by auto
    obtain r where r: "suffixes (ip @ fp') = [] # r" using suffixes_Nil_first by blast
    have sf: "suffixes ((ip @ fp') @ [d]) = [] # [d] # map (\<lambda>ys. ys @ [d]) r"
      unfolding suffixes_snoc r by simp
    have tx: "ip @ dot @ fp @ w = ((ip @ fp') @ [d]) @ w"
      using True fp by simp
    have run: "matches (Star (Cls Digit)) (((ip @ fp') @ [d]) @ w, c)
            = map (\<lambda>u. (u @ w, c)) (suffixes ((ip @ fp') @ [d]))"
      using assms(1) fp' d assms(5)
      by (intro star_cls_run) (auto simp: list_all_iff)
    have m: "matches (Star (Cls Digit)) (ip @ dot @ fp @ w, c)
            = (w, c) # (d # w, c) # map (\<lambda>u. (u @ w, c)) (map (\<lambda>ys. ys @ [d]) r)"
      unfolding tx run sf by simp
    have k1: "matches ?K (w, c) = []"
      by (rule after_digits_fail[OF assms(5) assms(6)[OF True]])
    have "\<not> prefix ''.'' (d # w)" using d by (auto simp: is_digit_def)
    then have "matches (Lit ''.'') (d # w, c) = []" by (intro matches_Lit_fail)
    from fm_Opt_skip[OF this]
    have 2: "first_match (Opt (Lit ''.'')) (d # w, c) = Some ([d] @ w, c)" by simp
    have 3: "first_match (Seq (Plus (Cls Digit)) (Opt exponent_pattern)) ([d] @ w, c)
               = Some (post, c)"
      using d by (intro frac) auto
    have k2: "first_match ?K (d # w, c) = Some (post, c)"
      by (rule fm_Seq[OF 2 3])
    show ?thesis by (rule fm_Seq_second[OF m k1 k2])
  qed
qed

lemma number_pattern_unfold:
  "number_pattern =
     Seq (Opt (Cls (OneOf ''-+'')))
       (Seq (Star (Cls Digit))
          (Seq (Opt (Lit ''.'')) (Seq (Plus (Cls Digit)) (Opt exponent_pattern))))"
  by (simp add: number_pattern_def)

lemma number_some:
  assumes "spec_number s = Some tok"
  shows "\<exists>post. s = tok @ post \<and> first_match number_pattern (s, c) = Some (post, c)"
proof -
  let ?u = "skip_sign s"
  let ?sg = "take (length s - length ?u) s"
  let ?ip = "takeWhile is_digit ?u"
  let ?v = "dropWhile is_digit ?u"
  have s: "s = ?sg @ ?ip @ ?v" using sign_part(1)[of s] by simp
  have sg: "opt_sign ?sg" by (rule sign_part(2))
  have ip: "list_all is_digit ?ip" by (auto simp: list_all_iff dest: set_takeWhileD)
  have v: "?v = [] \<or> \<not> in_class Digit (hd ?v)"
    using hd_dropWhile[of is_digit ?u] by auto
  show ?thesis
  proof (cases "point_digit ?v")
    case True
    then obtain f w0 where vv: "?v = CHR ''.'' # f # w0" and f: "is_digit f"
      by (cases ?v; cases "tl ?v") (auto simp: point_digit_def)
    let ?fp = "takeWhile is_digit (tl ?v)"
    let ?w = "dropWhile is_digit (tl ?v)"
    have fpne: "?fp \<noteq> []" using vv f by simp
    have fp: "list_all is_digit ?fp" by (auto simp: list_all_iff dest: set_takeWhileD)
    have w: "?w = [] \<or> \<not> in_class Digit (hd ?w)"
      using hd_dropWhile[of is_digit "tl ?v"] by auto
    have vd: "?v = ''.'' @ ?fp @ ?w" using vv by simp
    obtain post where p: "?w = spec_exponent ?w @ post"
      and e: "first_match (Opt exponent_pattern) (?w, c) = Some (post, c)"
      using exponent_general[of ?w c] by blast
    have tok: "tok = ?sg @ ?ip @ ''.'' @ ?fp @ spec_exponent ?w"
      using assms True by (simp add: spec_number_def Let_def)
    have u: "first_match
           (Seq (Star (Cls Digit))
              (Seq (Opt (Lit ''.'')) (Seq (Plus (Cls Digit)) (Opt exponent_pattern))))
           (?ip @ ''.'' @ ?fp @ ?w, c) = Some (post, c)"
      using ip fpne fp w e by (intro unsigned_general) (auto simp: opt_point_def)
    have nosign: "?sg = [] \<Longrightarrow>
        ?ip @ ''.'' @ ?fp @ ?w = [] \<or> \<not> in_class (OneOf ''-+'') (hd (?ip @ ''.'' @ ?fp @ ?w))"
      using ip by (cases ?ip) (auto simp: is_digit_def)
    have "first_match number_pattern (?sg @ ?ip @ ''.'' @ ?fp @ ?w, c) = Some (post, c)"
      unfolding number_pattern_unfold
      by (rule sign_then[OF sg nosign u])
    moreover have "?sg @ ?ip @ ''.'' @ ?fp @ ?w = s"
      using s vd by (metis)
    moreover have "s = tok @ post"
    proof -
      have "s = ?sg @ ?ip @ ''.'' @ ?fp @ ?w" using s vd by metis
      also have "\<dots> = ?sg @ ?ip @ ''.'' @ ?fp @ spec_exponent ?w @ post" using p by metis
      finally show ?thesis using tok by simp
    qed
    ultimately show ?thesis by auto
  next
    case False
    with assms have ipne: "?ip \<noteq> []" and tok: "tok = ?sg @ ?ip @ spec_exponent ?v"
      by (auto simp: spec_number_def Let_def split: if_splits)
    obtain ip' d where ipd: "?ip = ip' @ [d]" using ipne by (metis rev_exhaust)
    with ip have ip': "list_all is_digit ip'" and d: "list_all is_digit [d]" by auto
    obtain post where p: "?v = spec_exponent ?v @ post"
      and e: "first_match (Opt exponent_pattern) (?v, c) = Some (post, c)"
      using exponent_general[of ?v c] by blast
    have "first_match
           (Seq (Star (Cls Digit))
              (Seq (Opt (Lit ''.'')) (Seq (Plus (Cls Digit)) (Opt exponent_pattern))))
           (ip' @ [] @ [d] @ ?v, c) = Some (post, c)"
      using ip' d v False e by (intro unsigned_general) (auto simp: opt_point_def)
    then have u: "first_match
           (Seq (Star (Cls Digit))
              (Seq (Opt (Lit ''.'')) (Seq (Plus (Cls Digit)) (Opt exponent_pattern))))
           (?ip @ ?v, c) = Some (post, c)"
      using ipd by simp
    have nosign: "?sg = [] \<Longrightarrow> ?ip @ ?v = [] \<or> \<not> in_class (OneOf ''-+'') (hd (?ip @ ?v))"
      using ip ipne by (cases ?ip) (auto simp: is_digit_def)
    have "first_match number_pattern (?sg @ ?ip @ ?v, c) = Some (post, c)"
      unfolding number_pattern_unfold
      by (rule sign_then[OF sg nosign u])
    moreover have "s = tok @ post"
    proof -
      have "s = ?sg @ ?ip @ spec_exponent ?v @ post" using s p by metis
      then show ?thesis using tok by simp
    qed
    ultimately show ?thesis using s by metis
  qed
qed

lemma digits_run_fail:
  assumes "x = [] \<or> \<not> in_class Digit (hd x)" and "\<not> point_digit x"
  shows "matches (Seq (Star (Cls Digit))
           (Seq (Opt (Lit ''.'')) (Seq (Plus (Cls Digit)) r))) (x, c) = []"
proof -
  have "matches (Star (Cls Digit)) (x, c) = [(x, c)]"
    by (rule star_cls_stop[OF assms(1)])
  then show ?thesis
    unfolding matches.simps(4)[of "Star (Cls Digit)"]
    using after_digits_fail[OF assms, of r c] by simp
qed

lemma number_none:
  assumes "spec_number s = None"
  shows "matches number_pattern (s, c) = []"
proof -
  let ?u = "skip_sign s"
  let ?R = "Seq (Star (Cls Digit))
           (Seq (Opt (Lit ''.'')) (Seq (Plus (Cls Digit)) (Opt exponent_pattern)))"
  from assms have ip: "takeWhile is_digit ?u = []" and np: "\<not> point_digit (dropWhile is_digit ?u)"
    by (auto simp: spec_number_def Let_def split: if_splits)
  from ip have u1: "?u = [] \<or> \<not> in_class Digit (hd ?u)"
    by (cases ?u) (auto split: if_splits)
  from ip have "dropWhile is_digit ?u = ?u"
    by (cases ?u) (auto split: if_splits)
  with np have u2: "\<not> point_digit ?u" by simp
  have ru: "matches ?R (?u, c) = []" by (rule digits_run_fail[OF u1 u2])
  show ?thesis
  proof (cases "s = ?u")
    case True
    then have "s = [] \<or> \<not> in_class (OneOf ''-+'') (hd s)"
      by (cases s) (auto simp: skip_sign_def split: if_splits)
    then have "matches (Cls (OneOf ''-+'')) (s, c) = []" by (rule matches_Cls_fail)
    then have "matches (Opt (Cls (OneOf ''-+''))) (s, c) = [(s, c)]"
      by (rule matches_Opt_skip)
    then show ?thesis
      unfolding number_pattern_unfold matches.simps(4)[of "Opt (Cls (OneOf ''-+''))"]
      using ru True by simp
  next
    case False
    then obtain x where s: "s = x # ?u" and x: "x = CHR ''+'' \<or> x = CHR ''-''"
      by (cases s) (auto simp: skip_sign_def split: if_splits)
    have o: "matches (Opt (Cls (OneOf ''-+''))) (x # ?u, c) = [(?u, c), (x # ?u, c)]"
      using x by (auto simp: Opt_def)
    have "\<not> in_class Digit (hd (x # ?u))" and "\<not> point_digit (x # ?u)"
      using x by (auto simp: is_digit_def point_digit_def split: list.splits)
    then have rs: "matches ?R (x # ?u, c) = []"
      by (intro digits_run_fail) auto
    have "matches number_pattern (x # ?u, c) = []"
      unfolding number_pattern_unfold matches.simps(4)[of "Opt (Cls (OneOf ''-+''))"] o
      using ru rs by simp
    with s show ?thesis by simp
  qed
qed

lemma space_not_number:
  assumes "is_space y"
  shows "y \<noteq> CHR ''+''" and "y \<noteq> CHR ''-''" and "y \<noteq> CHR ''.''" and "\<not> is_digit y"
  using assms by (auto simp: is_space_def is_digit_def)

lemma spec_number_space:
  assumes "is_space y"
  shows "spec_number (y # r) = None"
proof -
  have u: "skip_sign (y # r) = y # r"
    using space_not_number(1,2)[OF assms] by (simp add: skip_sign_def)
  have "\<not> point_digit (y # r)"
    using space_not_number(3)[OF assms] by (simp add: point_digit_def split: list.splits)
  then show ?thesis
    using space_not_number(4)[OF assms] by (simp add: spec_number_def u Let_def)
qed

lemma spec_number_Nil: "spec_number [] = None"
  by (simp add: spec_number_def skip_sign_def point_digit_def)

lemma group_none: "matches r st = [] \<Longrightarrow> matches (Group n r) st = []"
  by simp

lemma energy_pattern_unfold:
  "energy_pattern = Seq (Lit energy_label) (Seq (Plus (Cls Space)) (Group 1 number_pattern))"
  by (simp add: energy_pattern_def)

lemma suffix_space_start:
  assumes "x \<in> set (suffixes ws)" and "\<forall>y\<in>set ws. is_space y" and "spec_number u = None"
  shows "spec_number (x @ u) = None"
proof (cases x)
  case Nil
  with assms(3) show ?thesis by simp
next
  case (Cons y x')
  from assms(1) have "suffix x ws" by (simp add: in_set_suffixes)
  then have "set x \<subseteq> set ws" by (rule set_mono_suffix)
  with Cons assms(2) have "is_space y" by auto
  with Cons show ?thesis by (simp add: spec_number_space)
qed

lemma energy_at_none:
  assumes "spec_energy_at s = None"
  shows "first_match energy_pattern (s, c) = None"
proof (cases "prefix energy_label s")
  case False
  then show ?thesis by (rule energy_no_label)
next
  case True
  then obtain t where s: "s = energy_label @ t" by (auto simp: prefix_def)
  have l: "matches (Lit energy_label) (s, c) = [(t, c)]" using s by simp
  have "matches (Seq (Plus (Cls Space)) (Group 1 number_pattern)) (t, c) = []"
  proof (cases "t \<noteq> [] \<and> is_space (hd t)")
    case False
    then have "matches (Cls Space) (t, c) = []" by (intro matches_Cls_fail) auto
    then show ?thesis by (simp add: Plus_def del: matches.simps(3,6,8))
  next
    case sp: True
    then obtain w ws where t: "t = w # ws" and w: "is_space w" by (cases t) auto
    let ?ws = "takeWhile is_space ws"
    let ?u = "dropWhile is_space ws"
    have du: "dropWhile is_space t = ?u" using t w by simp
    from assms True sp s have none: "spec_number ?u = None"
      by (simp add: spec_energy_at_def Let_def du)
    have u: "?u = [] \<or> \<not> in_class Space (hd ?u)"
      using hd_dropWhile[of is_space ws] by auto
    have "matches (Star (Cls Space)) (?ws @ ?u, c) = map (\<lambda>x. (x @ ?u, c)) (suffixes ?ws)"
      using u by (intro star_cls_run) (auto dest: set_takeWhileD)
    then have st: "matches (Star (Cls Space)) (ws, c) = map (\<lambda>x. (x @ ?u, c)) (suffixes ?ws)"
      by simp
    have p: "matches (Plus (Cls Space)) (t, c) = map (\<lambda>x. (x @ ?u, c)) (suffixes ?ws)"
      unfolding Plus_def matches.simps(4)[of "Cls Space"] using t w st by simp
    have "\<forall>x\<in>set (suffixes ?ws). matches (Group 1 number_pattern) (x @ ?u, c) = []"
    proof
      fix x assume "x \<in> set (suffixes ?ws)"
      then have "spec_number (x @ ?u) = None"
        using none by (intro suffix_space_start[of x ?ws]) (auto dest: set_takeWhileD)
      from group_none[OF number_none[OF this]]
      show "matches (Group 1 number_pattern) (x @ ?u, c) = []" .
    qed
    then have "concat (map (matches (Group 1 number_pattern))
                 (map (\<lambda>x. (x @ ?u, c)) (suffixes ?ws))) = []"
      by (simp add: comp_def del: matches.simps)
    then show ?thesis
      unfolding matches.simps(4)[of "Plus (Cls Space)"] p .
  qed
  then have "matches energy_pattern (s, c) = []"
    unfolding energy_pattern_unfold matches.simps(4)[of "Lit energy_label"] l by simp
  then show ?thesis by (simp add: first_match_def)
qed

lemma energy_at_some:
  assumes "spec_energy_at s = Some tok"
  shows "\<exists>e. first_match energy_pattern (s, c) = Some (e, (1, tok) # c)"
proof -
  from assms have pre: "prefix energy_label s"
    by (auto simp: spec_energy_at_def split: if_splits)
  then obtain t where s: "s = energy_label @ t" by (auto simp: prefix_def)
  from assms s have sp: "t \<noteq> [] \<and> is_space (hd t)"
    and num: "spec_number (dropWhile is_space t) = Some tok"
    by (auto simp: spec_energy_at_def Let_def split: if_splits)
  let ?ws = "takeWhile is_space t"
  let ?u = "dropWhile is_space t"
  have wsne: "?ws \<noteq> []" using sp by (cases t) auto
  have u: "?u = [] \<or> \<not> in_class Space (hd ?u)"
    using hd_dropWhile[of is_space t] by auto
  have 1: "first_match (Lit energy_label) (energy_label @ ?ws @ ?u, c) = Some (?ws @ ?u, c)"
    by (rule fm_Lit)
  have 2: "first_match (Plus (Cls Space)) (?ws @ ?u, c) = Some (?u, c)"
    using wsne u by (intro fm_plus_cls_run) (auto dest: set_takeWhileD)
  obtain post where p: "?u = tok @ post"
    and n: "first_match number_pattern (?u, c) = Some (post, c)"
    using number_some[OF num, of c] by blast
  from fm_Group[OF n, of 1]
  have "first_match (Group 1 number_pattern) (?u, c)
          = Some (post, (1, take (length ?u - length post) ?u) # c)" .
  moreover have "take (length ?u - length post) ?u = tok"
    by (subst (1 2) p) simp
  ultimately have 3: "first_match (Group 1 number_pattern) (?u, c) = Some (post, (1, tok) # c)"
    by simp
  have "first_match energy_pattern (energy_label @ ?ws @ ?u, c) = Some (post, (1, tok) # c)"
    unfolding energy_pattern_unfold
    by (rule fm_Seq[OF 1 fm_Seq[OF 2 3]])
  then show ?thesis using s by auto
qed

lemma parse_energy_scan: "parse_energy content = spec_energy content"
proof (induction content)
  case Nil
  have "spec_energy_at [] = None"
    by (simp add: spec_energy_at_def energy_label_def)
  from energy_at_none[OF this, of "[]"] show ?case
    by (simp add: parse_energy_def)
next
  case (Cons x xs)
  show ?case
  proof (cases "spec_energy_at (x # xs)")
    case None
    from energy_at_none[OF this, of "[]"] Cons show ?thesis
      by (simp add: parse_energy_def None)
  next
    case (Some tok)
    from energy_at_some[OF this, of "[]"] obtain e
      where "first_match energy_pattern (x # xs, []) = Some (e, [(1, tok)])" by blast
    then show ?thesis
      by (simp add: parse_energy_def Some group_def)
  qed
qed

text \<open>
  C4 as stated fails.  A numeric value follows the label in \<open>FINAL SINGLE POINT ENERGY:
  -76.5\<close> and in \<open>FINAL SINGLE POINT ENERGY-76.5\<close>, and the parser returns \<open>Not found\<close>:
  the pattern wants whitespace between the label and the value.  A text that contains
  \<open>FINAL SINGLE POINT ENERGY  -76.123456\<close> after an earlier \<open>FINAL SINGLE POINT ENERGY
  1.0\<close> gives \<open>1.0\<close>.
\<close>

theorem energy_label_counterexample:
  "parse_energy ''FINAL SINGLE POINT ENERGY: -76.5'' = ''Not found''
   \<and> parse_energy ''FINAL SINGLE POINT ENERGY-76.5'' = ''Not found''
   \<and> parse_energy (''FINAL SINGLE POINT ENERGY 1.0'' @ [nl] @
                    ''FINAL SINGLE POINT ENERGY  -76.123456'') = ''1.0''"
  by code_simp

text \<open>
  C4, as the code has it.  For every text the energy is what the scanner \<open>spec_energy\<close>
  gives: the numeric value after the first occurrence of the label that is followed by
  one or more whitespace characters and then a numeric value (optional sign, digits,
  optional point with digits, optional exponent, each part as long as possible);
  occurrences of the label followed by anything else are passed over, and without such
  an occurrence the energy is \<open>Not found\<close>.  In particular: it is \<open>Not found\<close> when the
  label does not occur; it is \<open>-76.123456\<close> for the text \<open>FINAL SINGLE POINT ENERGY
  -76.123456\<close>; and when the first occurrence of the label is followed by whitespace and
  a value that the following text does not continue, it is that value.
\<close>

theorem parse_energy_first_value:
  "parse_energy content = spec_energy content
   \<and> (\<not> str_contains energy_label content \<longrightarrow> parse_energy content = ''Not found'')
   \<and> parse_energy ''FINAL SINGLE POINT ENERGY  -76.123456'' = ''-76.123456''
   \<and> (\<not> begins_inside energy_label pre \<and> ws \<noteq> [] \<and> list_all is_space ws \<and>
       opt_sign sg \<and> list_all is_digit ip \<and> opt_point dot \<and> fp \<noteq> [] \<and>
       list_all is_digit fp \<and> opt_exponent ex \<and> ends_number post \<longrightarrow>
       parse_energy (pre @ energy_label @ ws @ (sg @ ip @ dot @ fp @ ex) @ post)
         = sg @ ip @ dot @ fp @ ex)"
proof (intro conjI impI)
  show "parse_energy content = spec_energy content"
    by (rule parse_energy_scan)
  have ne: "energy_label \<noteq> []" by (simp add: energy_label_def)
  {
    assume "\<not> str_contains energy_label content"
    from search_none[of energy_label energy_pattern, OF energy_no_label ne this]
    show "parse_energy content = ''Not found''" by (simp add: parse_energy_def)
  }
  show "parse_energy ''FINAL SINGLE POINT ENERGY  -76.123456'' = ''-76.123456''"
    by code_simp
  {
    let ?num = "sg @ ip @ dot @ fp @ ex"
    assume a: "\<not> begins_inside energy_label pre \<and> ws \<noteq> [] \<and> list_all is_space ws \<and>
       opt_sign sg \<and> list_all is_digit ip \<and> opt_point dot \<and> fp \<noteq> [] \<and>
       list_all is_digit fp \<and> opt_exponent ex \<and> ends_number post"
    have "first_match energy_pattern (energy_label @ ws @ ?num @ post, [])
            = Some (post, [(1, ?num)])"
      using a by (intro energy_at) auto
    from search_found[OF _ this]
    have "search energy_pattern (energy_label @ ws @ ?num @ post)
            = Some (energy_label @ ws @ ?num @ post, post, [(1, ?num)])"
      using ne by simp
    moreover have "search energy_pattern (pre @ energy_label @ ws @ ?num @ post)
            = search energy_pattern (energy_label @ ws @ ?num @ post)"
      using a by (intro search_skip[OF energy_no_label ne]) auto
    ultimately show "parse_energy (pre @ energy_label @ ws @ ?num @ post) = ?num"
      by (simp add: parse_energy_def group_def)
  }
qed

theorem parse_energy_first_value_witness:
  "parse_energy ''no energy in this text'' = ''Not found''
   \<and> parse_energy (''FINAL GEOMETRY'' @ [nl] @ ''FINAL SINGLE POINT ENERGY'' @ [CHR 0x09, CHR '' '']
        @ ''+0.7632e-2'' @ [nl] @ ''FINAL SINGLE POINT ENERGY 1.0'') = ''+0.7632e-2''
   \<and> parse_energy (''FINAL SINGLE POINT ENERGY: n/a'' @ [nl] @
                    ''FINAL SINGLE POINT ENERGY   -76.5e'') = ''-76.5''"
proof (intro conjI)
  have h: "\<not> str_contains energy_label ''no energy in this text''"
    by (simp add: energy_label_def)
  from parse_energy_first_value[where content = "''no energy in this text''",
      THEN conjunct2, THEN conjunct1, rule_format, OF h]
  show "parse_energy ''no energy in this text'' = ''Not found''" .
next
  have h: "\<not> begins_inside energy_label (''FINAL GEOMETRY'' @ [nl]) \<and>
       [CHR 0x09, CHR '' ''] \<noteq> [] \<and> list_all is_space [CHR 0x09, CHR '' ''] \<and>
       opt_sign ''+'' \<and> list_all is_digit ''0'' \<and> opt_point ''.'' \<and> ''7632'' \<noteq> [] \<and>
       list_all is_digit ''7632'' \<and> opt_exponent ''e-2'' \<and>
       ends_number ([nl] @ ''FINAL SINGLE POINT ENERGY 1.0'')"
    by (simp add: energy_label_def begins_inside_def is_space_def is_digit_def opt_sign_def
        opt_point_def opt_exponent_def ends_number_def skip_sign_def)
  from parse_energy_first_value[THEN conjunct2, THEN conjunct2, THEN conjunct2,
      rule_format, OF h]
  show "parse_energy (''FINAL GEOMETRY'' @ [nl] @ ''FINAL SINGLE POINT ENERGY''
        @ [CHR 0x09, CHR '' ''] @ ''+0.7632e-2'' @ [nl] @ ''FINAL SINGLE POINT ENERGY 1.0'')
          = ''+0.7632e-2''"
    by (simp add: energy_label_def)
next
  have a: "spec_energy (''FINAL SINGLE POINT ENERGY: n/a'' @ [nl] @
                    ''FINAL SINGLE POINT ENERGY   -76.5e'') = ''-76.5''"
    by code_simp
  from parse_energy_first_value[where content =
      "''FINAL SINGLE POINT ENERGY: n/a'' @ [nl] @ ''FINAL SINGLE POINT ENERGY   -76.5e''",
      THEN conjunct1] a
  show "parse_energy (''FINAL SINGLE POINT ENERGY: n/a'' @ [nl] @
                    ''FINAL SINGLE POINT ENERGY   -76.5e'') = ''-76.5''"
    by (simp only:)
qed

subsection \<open>Output Parser: the geometry\<close>

lemma star_lit_Nil: "matches (Star (Lit [d])) ([], c) = [([], c)]"
  by (simp add: matches.simps(6))

lemma star_lit_Cons:
  "matches (Star (Lit [d])) (x # xs, c) =
     (if x = d then matches (Star (Lit [d])) (xs, c) @ [(x # xs, c)] else [(x # xs, c)])"
  by (simp add: matches.simps(6))

lemma star_lit_succeeds: "\<exists>t r. matches (Star (Lit [d])) (s, c) = (t, c) # r"
proof (induction s)
  case Nil
  then show ?case by (simp add: star_lit_Nil)
next
  case (Cons x xs)
  then obtain t r where "matches (Star (Lit [d])) (xs, c) = (t, c) # r" by blast
  then show ?case by (simp add: star_lit_Cons)
qed

lemma star_lit_run:
  assumes "t = [] \<or> hd t \<noteq> d"
  shows "\<exists>r. matches (Star (Lit [d])) (replicate n d @ t, c) = (t, c) # r"
proof (induction n)
  case 0
  with assms show ?case by (cases t) (simp_all add: star_lit_Nil star_lit_Cons)
next
  case (Suc n)
  then obtain r where "matches (Star (Lit [d])) (replicate n d @ t, c) = (t, c) # r" by blast
  then show ?case by (simp add: star_lit_Cons)
qed

lemma fm_plus_lit_run:
  assumes "1 \<le> n" and "t = [] \<or> hd t \<noteq> d"
  shows "first_match (Plus (Lit [d])) (replicate n d @ t, c) = Some (t, c)"
proof -
  obtain m where n: "n = Suc m" using assms(1) by (cases n) auto
  obtain r where "matches (Star (Lit [d])) (replicate m d @ t, c) = (t, c) # r"
    using star_lit_run[OF assms(2)] by blast
  then show ?thesis by (simp add: n Plus_def first_match_def)
qed

lemma line_match:
  "nl \<notin> set l \<Longrightarrow> matches line_pattern (l @ nl # t, c) = [(t, c)]"
proof (induction l)
  case Nil
  then show ?case by (simp add: line_pattern_def star_cls_Cons)
next
  case (Cons x l)
  then have "matches line_pattern (l @ nl # t, c) = [(t, c)]" and "x \<noteq> nl" by auto
  then show ?case by (simp add: line_pattern_def star_cls_Cons)
qed

lemma lazy_line:
  "nl \<notin> set l \<Longrightarrow>
   matches (LazyStar line_pattern) (l @ nl # t, c) =
     (l @ nl # t, c) # matches (LazyStar line_pattern) (t, c)"
  by (subst matches.simps(7)) (simp add: line_match)

lemma lazy_first:
  "\<exists>r. matches (LazyStar line_pattern) (s, c) = (s, c) # r"
  by (subst matches.simps(7)) simp

lemma atleast3_fail:
  "\<not> prefix ''---'' s \<Longrightarrow> matches (AtLeast3 (Lit ''-'')) (s, c) = []"
proof (cases s)
  case Nil
  then show ?thesis by (simp add: AtLeast3_def)
next
  case s1: (Cons a s')
  assume np: "\<not> prefix ''---'' s"
  show ?thesis
  proof (cases s')
    case Nil
    with s1 show ?thesis by (simp add: AtLeast3_def)
  next
    case s2: (Cons b s'')
    show ?thesis
    proof (cases s'')
      case Nil
      with s1 s2 show ?thesis by (simp add: AtLeast3_def)
    next
      case (Cons e s''')
      with s1 s2 np show ?thesis by (auto simp: AtLeast3_def)
    qed
  qed
qed

lemma atleast3_rule:
  "\<exists>t. first_match (AtLeast3 (Lit ''-'')) (''---'' @ rest, c) = Some (t, c)"
proof -
  obtain t r where "matches (Star (Lit ''-'')) (rest, c) = (t, c) # r"
    using star_lit_succeeds by blast
  then show ?thesis by (simp add: AtLeast3_def first_match_def)
qed

lemma block_line_no_rule:
  assumes "block_line l"
  shows "\<not> prefix ''---'' (l @ nl # t)" and "l \<noteq> []" and "hd l \<noteq> nl"
proof -
  from assms have n: "nl \<notin> set l" and p: "\<not> prefix ''---'' l"
    and e: "list_ex (\<lambda>c. \<not> is_space c) l"
    by (auto simp: block_line_def)
  from e show ne: "l \<noteq> []" by auto
  from n ne show "hd l \<noteq> nl" by (cases l) auto
  show "\<not> prefix ''---'' (l @ nl # t)"
  proof (cases l)
    case Nil
    then show ?thesis by simp
  next
    case l1: (Cons a l')
    show ?thesis
    proof (cases l')
      case Nil
      with l1 show ?thesis by simp
    next
      case l2: (Cons b l'')
      show ?thesis
      proof (cases l'')
        case Nil
        with l1 l2 show ?thesis by simp
      next
        case (Cons e' l''')
        with l1 l2 p show ?thesis by simp
      qed
    qed
  qed
qed

lemma terminator_fail_line:
  assumes "block_line l"
  shows "matches terminator_pattern (l @ nl # t, c) = []"
proof -
  have 1: "matches (AtLeast3 (Lit ''-'')) (l @ nl # t, c) = []"
    by (rule atleast3_fail[OF block_line_no_rule(1)[OF assms]])
  have "\<not> prefix [nl] (l @ nl # t)"
    using block_line_no_rule(2,3)[OF assms] by (cases l) auto
  then have 2: "matches (Lit [nl]) (l @ nl # t, c) = []" by (rule matches_Lit_fail)
  show ?thesis
    unfolding terminator_pattern_def seq.simps matches.simps(5) 1
    using 2 by (simp del: matches.simps(2))
qed

lemma terminator_fail_blank:
  "matches terminator_pattern (nl # ''---'' @ rest, c) = []"
proof -
  have 1: "matches (AtLeast3 (Lit ''-'')) (nl # ''---'' @ rest, c) = []"
    by (rule atleast3_fail) simp
  have 2: "matches (Star (Cls Space)) (''---'' @ rest, c) = [(''---'' @ rest, c)]"
    by (rule star_cls_stop) (simp add: is_space_def)
  show ?thesis
    unfolding terminator_pattern_def seq.simps matches.simps(5) 1
    using 2 by simp
qed

lemma terminator_rule:
  "\<exists>t. first_match terminator_pattern (''---'' @ rest, c) = Some (t, c)"
proof -
  obtain t where "first_match (AtLeast3 (Lit ''-'')) (''---'' @ rest, c) = Some (t, c)"
    using atleast3_rule by blast
  then show ?thesis
    by (auto simp: terminator_pattern_def first_match_def split: list.splits)
qed

lemma lookahead_fail: "matches r st = [] \<Longrightarrow> matches (Lookahead r) st = []"
  by simp

lemma lookahead_ok:
  "first_match r (s, c) = Some (t, c) \<Longrightarrow> matches (Lookahead r) (s, c) = [(s, c)]"
  by (auto simp: first_match_def split: list.splits)

lemma lazy_scan:
  assumes "list_all block_line ls"
  shows "\<exists>r. concat (map (\<lambda>st'. matches (Lookahead terminator_pattern)
                              (fst st', (1::nat, f (fst st')) # snd st'))
                 (matches (LazyStar line_pattern)
                    (concat (map (\<lambda>l. l @ [nl]) ls) @ nl # ''---'' @ rest, c)))
           = (''---'' @ rest, (1, f (''---'' @ rest)) # c) # r"
  using assms
proof (induction ls)
  case Nil
  obtain r where r: "matches (LazyStar line_pattern) (''---'' @ rest, c) = (''---'' @ rest, c) # r"
    using lazy_first by blast
  have l: "matches (LazyStar line_pattern) (nl # ''---'' @ rest, c) =
          (nl # ''---'' @ rest, c) # matches (LazyStar line_pattern) (''---'' @ rest, c)"
    using lazy_line[of "[]" "''---'' @ rest" c] by simp
  obtain t where "first_match terminator_pattern
      (''---'' @ rest, (1, f (''---'' @ rest)) # c) = Some (t, (1, f (''---'' @ rest)) # c)"
    using terminator_rule by blast
  from lookahead_ok[OF this]
  have ok: "matches (Lookahead terminator_pattern) (''---'' @ rest, (1, f (''---'' @ rest)) # c)
          = [(''---'' @ rest, (1, f (''---'' @ rest)) # c)]" .
  have bl: "matches (Lookahead terminator_pattern)
              (nl # ''---'' @ rest, (1, f (nl # ''---'' @ rest)) # c) = []"
    by (rule lookahead_fail[OF terminator_fail_blank])
  show ?case
    using l r ok bl by (simp del: matches.simps)
next
  case (Cons l ls)
  then have bl: "block_line l" and rest: "list_all block_line ls" by auto
  let ?T = "concat (map (\<lambda>l. l @ [nl]) ls) @ nl # ''---'' @ rest"
  from Cons.IH[OF rest] obtain r where
    ih: "concat (map (\<lambda>st'. matches (Lookahead terminator_pattern)
                              (fst st', (1::nat, f (fst st')) # snd st'))
                 (matches (LazyStar line_pattern) (?T, c)))
           = (''---'' @ rest, (1, f (''---'' @ rest)) # c) # r" by blast
  have n: "nl \<notin> set l" using bl by (simp add: block_line_def)
  have l: "matches (LazyStar line_pattern) (l @ nl # ?T, c) =
          (l @ nl # ?T, c) # matches (LazyStar line_pattern) (?T, c)"
    by (rule lazy_line[OF n])
  have f: "matches (Lookahead terminator_pattern)
              (l @ nl # ?T, (1, f (l @ nl # ?T)) # c) = []"
    by (rule lookahead_fail[OF terminator_fail_line[OF bl]])
  have "concat (map (\<lambda>l. l @ [nl]) (l # ls)) @ nl # ''---'' @ rest = l @ nl # ?T"
    by simp
  then show ?case
    using l ih f by (simp del: matches.simps)
qed

lemma group_lookahead:
  assumes "list_all block_line ls"
  shows "first_match (Seq (Group 1 (LazyStar line_pattern)) (Lookahead terminator_pattern))
           (atom_block ls @ ''---'' @ rest, c) = Some (''---'' @ rest, (1, atom_block ls) # c)"
proof -
  let ?S = "atom_block ls @ ''---'' @ rest"
  let ?f = "\<lambda>x. take (length ?S - length x) ?S"
  have s: "?S = concat (map (\<lambda>l. l @ [nl]) ls) @ nl # ''---'' @ rest"
    by (simp add: atom_block_def)
  obtain r where
    "concat (map (\<lambda>st'. matches (Lookahead terminator_pattern)
                              (fst st', (1::nat, ?f (fst st')) # snd st'))
                 (matches (LazyStar line_pattern)
                    (concat (map (\<lambda>l. l @ [nl]) ls) @ nl # ''---'' @ rest, c)))
           = (''---'' @ rest, (1, ?f (''---'' @ rest)) # c) # r"
    using lazy_scan[OF assms, of ?f rest c] by blast
  then have "concat (map (\<lambda>st'. matches (Lookahead terminator_pattern)
                              (fst st', (1::nat, ?f (fst st')) # snd st'))
                 (matches (LazyStar line_pattern) (?S, c)))
           = (''---'' @ rest, (1, ?f (''---'' @ rest)) # c) # r"
    unfolding s .
  moreover have "?f (''---'' @ rest) = atom_block ls" by simp
  moreover have "matches (Seq (Group 1 (LazyStar line_pattern)) (Lookahead terminator_pattern))
                   (?S, c)
      = concat (map (\<lambda>st'. matches (Lookahead terminator_pattern)
                              (fst st', (1::nat, ?f (fst st')) # snd st'))
                 (matches (LazyStar line_pattern) (?S, c)))"
    by (simp add: map_concat comp_def del: matches.simps(9))
  ultimately show ?thesis by (simp add: first_match_def del: matches.simps)
qed

lemma space_run_no_newline:
  assumes "nl \<notin> set l" and "list_ex (\<lambda>c. \<not> is_space c) l"
  shows "concat (map (matches (Seq (Lit [nl]) r)) (matches (Star (Cls Space)) (l @ t, c))) = []"
  using assms
proof (induction l)
  case Nil
  then show ?case by simp
next
  case (Cons x l)
  then have x: "x \<noteq> nl" and n: "nl \<notin> set l" by auto
  show ?case
  proof (cases "is_space x")
    case True
    with Cons.prems have "list_ex (\<lambda>c. \<not> is_space c) l" by simp
    from Cons.IH[OF n this] True x show ?thesis
      by (simp add: star_cls_Cons)
  next
    case False
    with x show ?thesis by (simp add: star_cls_Cons)
  qed
qed

lemma rule_end:
  assumes "block_line l"
  shows "matches (Seq (Star (Cls Space)) (Seq (Lit [nl]) r)) (nl # l @ t, c)
           = matches r (l @ t, c)"
proof -
  from assms have n: "nl \<notin> set l" and e: "list_ex (\<lambda>c. \<not> is_space c) l"
    by (auto simp: block_line_def)
  have sp: "is_space nl" by (simp add: is_space_def)
  have a: "matches (Star (Cls Space)) (nl # l @ t, c)
             = matches (Star (Cls Space)) (l @ t, c) @ [(nl # l @ t, c)]"
    using sp by (simp add: star_cls_Cons)
  have b: "matches (Seq (Lit [nl]) r) (nl # l @ t, c) = matches r (l @ t, c)"
    by simp
  have "matches (Seq (Star (Cls Space)) (Seq (Lit [nl]) r)) (nl # l @ t, c)
          = concat (map (matches (Seq (Lit [nl]) r)) (matches (Star (Cls Space)) (l @ t, c)))
            @ matches (Seq (Lit [nl]) r) (nl # l @ t, c)"
    unfolding matches.simps(4)[of "Star (Cls Space)"] a by simp
  also have "\<dots> = matches r (l @ t, c)"
    unfolding space_run_no_newline[OF n e] b by simp
  finally show ?thesis .
qed

lemma atom_block_Cons: "atom_block (l # ls) = l @ nl # atom_block ls"
  by (simp add: atom_block_def)

lemma section_first_match:
  assumes "1 \<le> n" and "ls \<noteq> []" and "list_all block_line ls"
  shows "first_match geometry_pattern (section_text n ls @ ''---'' @ rest, c)
           = Some (''---'' @ rest, (1, atom_block ls) # c)"
proof -
  let ?B = "atom_block ls @ ''---'' @ rest"
  let ?R = "Seq (Group 1 (LazyStar line_pattern)) (Lookahead terminator_pattern)"
  obtain l ls' where ls: "ls = l # ls'" using assms(2) by (cases ls) auto
  with assms(3) have bl: "block_line l" by simp
  have 1: "first_match (Lit geometry_header) (geometry_header @ nl # replicate n CHR ''-'' @ nl # ?B, c)
             = Some (nl # replicate n CHR ''-'' @ nl # ?B, c)"
    by (rule fm_Lit)
  have d: "replicate n CHR ''-'' @ nl # ?B = [] \<or>
           \<not> in_class Space (hd (replicate n CHR ''-'' @ nl # ?B))"
    using assms(1) by (cases n) (auto simp: is_space_def)
  have 2: "first_match (Star (Cls Space)) ([nl] @ replicate n CHR ''-'' @ nl # ?B, c)
             = Some (replicate n CHR ''-'' @ nl # ?B, c)"
    using d by (intro fm_star_cls_run) (auto simp: is_space_def)
  have 3: "first_match (Plus (Lit ''-'')) (replicate n CHR ''-'' @ nl # ?B, c)
             = Some (nl # ?B, c)"
    using assms(1) by (intro fm_plus_lit_run) auto
  have "matches (Seq (Star (Cls Space)) (Seq (Lit [nl]) ?R)) (nl # l @ (nl # atom_block ls' @ ''---'' @ rest), c)
          = matches ?R (l @ (nl # atom_block ls' @ ''---'' @ rest), c)"
    by (rule rule_end[OF bl])
  then have "matches (Seq (Star (Cls Space)) (Seq (Lit [nl]) ?R)) (nl # ?B, c) = matches ?R (?B, c)"
    by (simp add: ls atom_block_Cons)
  then have "first_match (Seq (Star (Cls Space)) (Seq (Lit [nl]) ?R)) (nl # ?B, c)
          = first_match ?R (?B, c)"
    by (simp only: first_match_def)
  with group_lookahead[OF assms(3), of rest c]
  have 4: "first_match (Seq (Star (Cls Space)) (Seq (Lit [nl]) ?R)) (nl # ?B, c)
          = Some (''---'' @ rest, (1, atom_block ls) # c)"
    by simp
  have "first_match geometry_pattern (geometry_header @ nl # replicate n CHR ''-'' @ nl # ?B, c)
          = Some (''---'' @ rest, (1, atom_block ls) # c)"
    unfolding geometry_pattern_def seq.simps
    using fm_Seq[OF 1 fm_Seq[OF _ fm_Seq[OF 3 4]]] 2 by simp
  then show ?thesis by (simp add: section_text_def)
qed

lemma geometry_no_header:
  "\<not> prefix geometry_header s \<Longrightarrow> first_match geometry_pattern (s, c) = None"
  by (simp add: geometry_pattern_def first_match_def del: matches.simps(5,6,7))

lemma header_nonempty: "geometry_header \<noteq> []"
  by (simp add: geometry_header_def)

lemma search_section:
  assumes "\<not> begins_inside geometry_header gap"
    and "1 \<le> n" and "ls \<noteq> []" and "list_all block_line ls"
  shows "search geometry_pattern (gap @ section_text n ls @ ''---'' @ rest)
           = Some (section_text n ls @ ''---'' @ rest, ''---'' @ rest, [(1, atom_block ls)])"
proof -
  let ?S = "section_text n ls @ ''---'' @ rest"
  obtain tl' where s: "?S = geometry_header @ tl'"
    by (simp add: section_text_def)
  have "search geometry_pattern (gap @ geometry_header @ tl')
          = search geometry_pattern (geometry_header @ tl')"
    by (rule search_skip[OF geometry_no_header header_nonempty assms(1)])
  then have "search geometry_pattern (gap @ ?S) = search geometry_pattern ?S"
    using s by simp
  moreover have "?S \<noteq> []" using header_nonempty by (simp add: section_text_def)
  from search_found[OF this section_first_match[OF assms(2-4), of rest "[]"]]
  have "search geometry_pattern ?S = Some (?S, ''---'' @ rest, [(1, atom_block ls)])" .
  ultimately show ?thesis by simp
qed

lemma findall_section:
  assumes "\<not> begins_inside geometry_header gap"
    and "1 \<le> n" and "ls \<noteq> []" and "list_all block_line ls"
  shows "findall geometry_pattern (gap @ section_text n ls @ ''---'' @ rest)
           = atom_block ls # findall geometry_pattern (''---'' @ rest)"
proof -
  define e where "e = ''---'' @ rest"
  define b where "b = section_text n ls @ e"
  have s: "search geometry_pattern (gap @ b) = Some (b, e, [(1, atom_block ls)])"
    unfolding b_def e_def by (rule search_section[OF assms])
  have l: "length e < length b" "length e < length (gap @ b)"
    by (simp_all add: b_def section_text_def)
  have "findall geometry_pattern (gap @ b) = atom_block ls # findall geometry_pattern e"
    apply (subst findall.simps)
    using l by (simp add: s group_def)
  then show ?thesis by (simp add: b_def e_def)
qed

lemma findall_none:
  assumes "\<not> str_contains geometry_header s"
  shows "findall geometry_pattern s = []"
  using search_none[of geometry_header geometry_pattern, OF geometry_no_header header_nonempty assms]
  by (subst findall.simps) simp

lemma contains_after_rule:
  "str_contains geometry_header (''---'' @ s) = str_contains geometry_header s"
  by (simp add: geometry_header_def)

lemma begins_after_rule:
  "begins_inside geometry_header (''---'' @ gap) = begins_inside geometry_header gap"
  by (simp add: begins_inside_def geometry_header_def)

lemma findall_report:
  assumes "list_all section_ok secs" and "\<not> str_contains geometry_header post"
    and "p = [] \<or> p = ''---''"
  shows "findall geometry_pattern (p @ report_text secs post) = map section_block secs"
  using assms(1,3)
proof (induction secs arbitrary: p)
  case Nil
  have "\<not> str_contains geometry_header (p @ post)"
    using Nil.prems(2) assms(2) contains_after_rule[of post] by auto
  from findall_none[OF this] show ?case by simp
next
  case (Cons sec secs)
  obtain gap n ls where sec: "sec = (gap, n, ls)" by (cases sec) auto
  from Cons.prems sec have ok: "\<not> begins_inside geometry_header gap" "1 \<le> n" "ls \<noteq> []"
    "list_all block_line ls" and rest: "list_all section_ok secs"
    by auto
  have g: "\<not> begins_inside geometry_header (p @ gap)"
    using Cons.prems(2) ok(1) begins_after_rule[of gap] by auto
  have "findall geometry_pattern ((p @ gap) @ section_text n ls @ ''---'' @ report_text secs post)
          = atom_block ls # findall geometry_pattern (''---'' @ report_text secs post)"
    by (rule findall_section[OF g ok(2-4)])
  also have "findall geometry_pattern (''---'' @ report_text secs post) = map section_block secs"
    by (rule Cons.IH[OF rest]) simp
  finally show ?case by (simp add: sec)
qed

lemma split_on_snoc_sep: "split_on c (b @ [c]) = split_on c b @ [[]]"
  by (induction b) (auto split: list.splits simp: split_on_nonempty)

lemma split_on_snoc_other:
  "y \<noteq> c \<Longrightarrow> split_on c (b @ [y]) = butlast (split_on c b) @ [last (split_on c b) @ [y]]"
proof (induction b)
  case Nil
  then show ?case by simp
next
  case (Cons x b)
  show ?case
  proof (cases "x = c")
    case True
    with Cons show ?thesis by (simp add: split_on_nonempty)
  next
    case False
    obtain l ls where s: "split_on c b = l # ls"
      using split_on_nonempty[of c b] by (cases "split_on c b") auto
    obtain l' ls' where s': "split_on c (b @ [y]) = l' # ls'"
      using split_on_nonempty[of c "b @ [y]"] by (cases "split_on c (b @ [y])") auto
    from Cons s s' False show ?thesis by (cases ls) auto
  qed
qed

lemma tokens_lstrip: "tokens_of_lines (dropWhile is_space s) = tokens_of_lines s"
proof (induction s)
  case Nil
  then show ?case by simp
next
  case (Cons x s)
  show ?case
  proof (cases "is_space x")
    case False
    then show ?thesis by simp
  next
    case True
    obtain l ls where sp: "split_on nl s = l # ls"
      using split_on_nonempty[of nl s] by (cases "split_on nl s") auto
    have "tokens_of_lines (x # s) = tokens_of_lines s"
      using True sp by (cases "x = nl") (simp_all add: tokens_of_lines_def)
    with Cons True show ?thesis by simp
  qed
qed

lemma tokens_snoc_space:
  assumes "is_space y"
  shows "tokens_of_lines (text @ [y]) = tokens_of_lines text"
proof (cases "y = nl")
  case True
  then show ?thesis by (simp add: tokens_of_lines_def split_on_snoc_sep)
next
  case False
  have ne: "split_on nl text \<noteq> []" by (rule split_on_nonempty)
  have "split_ws (last (split_on nl text) @ [y]) = split_ws (last (split_on nl text))"
    using assms by (intro split_ws_append_space) simp
  moreover have "split_on nl text = butlast (split_on nl text) @ [last (split_on nl text)]"
    using ne by simp
  then have "tokens_of_lines text =
      filter (\<lambda>ts. ts \<noteq> []) (map split_ws (butlast (split_on nl text)
         @ [last (split_on nl text)]))"
    by (simp only: tokens_of_lines_def)
  ultimately show ?thesis
    using False by (simp add: tokens_of_lines_def split_on_snoc_other)
qed

lemma tokens_append_space:
  "\<forall>c\<in>set ws. is_space c \<Longrightarrow> tokens_of_lines (s @ ws) = tokens_of_lines s"
proof (induction ws arbitrary: s)
  case Nil
  then show ?case by simp
next
  case (Cons y ws)
  have "\<forall>c\<in>set ws. is_space c" using Cons.prems by simp
  from Cons.IH[OF this, of "s @ [y]"]
  have "tokens_of_lines (s @ y # ws) = tokens_of_lines (s @ [y])" by simp
  moreover have "tokens_of_lines (s @ [y]) = tokens_of_lines s"
    using Cons.prems by (intro tokens_snoc_space) simp
  ultimately show ?case by simp
qed

lemma tokens_rstrip: "tokens_of_lines (rev (dropWhile is_space (rev text))) = tokens_of_lines text"
proof -
  have "\<forall>c\<in>set (rev (takeWhile is_space (rev text))). is_space c"
    by (auto dest: set_takeWhileD)
  from tokens_append_space[OF this, of "rev (dropWhile is_space (rev text))"]
  show ?thesis by (simp only: rstrip_decomp)
qed

lemma tokens_strip: "tokens_of_lines (strip text) = tokens_of_lines text"
  by (simp add: strip_def tokens_rstrip tokens_lstrip)

lemma extract_by_tokens:
  "extract_atom_lines text =
     map format_atom
       (filter (\<lambda>parts. 4 \<le> length parts \<and> \<not> prefix ''-'' (parts ! 0) \<and>
            py_float_ok (parts ! 1) \<and> py_float_ok (parts ! 2) \<and> py_float_ok (parts ! 3))
          (tokens_of_lines text))"
proof -
  let ?P = "\<lambda>parts. 4 \<le> length parts \<and> \<not> prefix ''-'' (parts ! 0) \<and>
            py_float_ok (parts ! 1) \<and> py_float_ok (parts ! 2) \<and> py_float_ok (parts ! 3)"
  have 1: "filter ?P (filter (\<lambda>ts. ts \<noteq> []) xs) = filter ?P xs" for xs :: "string list list"
    by (induction xs) auto
  have 2: "map (\<lambda>l. format_atom (split_ws l)) (filter (\<lambda>l. ?P (split_ws l)) ls)
             = map format_atom (filter ?P (map split_ws ls))" for ls
    by (induction ls) auto
  have "extract_atom_lines text
          = map (\<lambda>l. format_atom (split_ws l)) (filter (\<lambda>l. ?P (split_ws l)) (split_on nl text))"
    unfolding extract_atom_lines_def foldl_atom_line_step by (simp add: Let_def)
  also have "\<dots> = map format_atom (filter ?P (map split_ws (split_on nl text)))"
    by (rule 2)
  also have "\<dots> = map format_atom (filter ?P (tokens_of_lines text))"
    unfolding tokens_of_lines_def 1 ..
  finally show ?thesis .
qed

lemma extract_strip: "extract_atom_lines (strip text) = extract_atom_lines text"
  by (simp only: extract_by_tokens tokens_strip)

lemma extract_atom_block:
  assumes "list_all block_line ls"
  shows "extract_atom_lines (strip (atom_block ls)) =
     map (\<lambda>l. format_atom (split_ws l))
       (filter (\<lambda>l. let parts = split_ws l in
            4 \<le> length parts \<and> \<not> prefix ''-'' (parts ! 0) \<and>
            py_float_ok (parts ! 1) \<and> py_float_ok (parts ! 2) \<and> py_float_ok (parts ! 3)) ls)"
proof -
  have "\<forall>l\<in>set ls. nl \<notin> set l"
    using assms by (auto simp: list_all_iff block_line_def)
  from split_on_lines[OF this, of "[nl]"]
  have "split_on nl (atom_block ls) = ls @ [[], []]"
    by (simp add: atom_block_def)
  then have "extract_atom_lines (atom_block ls) =
      foldl atom_line_step [] (ls @ [[], []])"
    by (simp only: extract_atom_lines_def)
  then show ?thesis
    unfolding extract_strip foldl_atom_line_step
    by (simp add: Let_def)
qed

text \<open>
  Where the parser does return the last section: a match needs the block to be
  followed, at the start of a line, by a rule of three or more dashes (or by an empty
  line and a whitespace-only line).  For a report with one or more sections in the
  engine's layout (header, rule, block lines, an empty line, then a rule), with no
  further header before the first section, between sections or after the last, the
  matches are the blocks of the sections in order, the geometry is the one computed from
  the block of the last section alone, and its lines are the kept lines of that section,
  formatted, in order.
\<close>

proposition geometry_from_last_section:
  assumes "secs \<noteq> []" and "list_all section_ok secs"
    and "\<not> str_contains geometry_header post"
  shows "findall geometry_pattern (report_text secs post) = map section_block secs
         \<and> parse_geometry (report_text secs post) = geometry_of_block (section_block (last secs))
         \<and> parse_geometry (report_text secs post) =
             (let atom_lines =
                map (\<lambda>l. format_atom (split_ws l))
                  (filter (\<lambda>l. let parts = split_ws l in
                      4 \<le> length parts \<and> \<not> prefix ''-'' (parts ! 0) \<and>
                      py_float_ok (parts ! 1) \<and> py_float_ok (parts ! 2) \<and>
                      py_float_ok (parts ! 3))
                    (section_lines (last secs)))
              in if atom_lines \<noteq> [] then join [nl] atom_lines else ''Not found'')"
proof -
  have f: "findall geometry_pattern (report_text secs post) = map section_block secs"
    using findall_report[OF assms(2,3), of "[]"] by simp
  then have g: "parse_geometry (report_text secs post)
                  = geometry_of_block (section_block (last secs))"
    using assms(1) by (simp add: parse_geometry_def last_map)
  obtain gap n ls where l: "last secs = (gap, n, ls)" by (cases "last secs") auto
  have "last secs \<in> set secs" using assms(1) by simp
  with assms(2) l have "list_all block_line ls" by (auto simp: list_all_iff)
  from extract_atom_block[OF this]
  have "geometry_of_block (section_block (last secs)) =
             (let atom_lines =
                map (\<lambda>l. format_atom (split_ws l))
                  (filter (\<lambda>l. let parts = split_ws l in
                      4 \<le> length parts \<and> \<not> prefix ''-'' (parts ! 0) \<and>
                      py_float_ok (parts ! 1) \<and> py_float_ok (parts ! 2) \<and>
                      py_float_ok (parts ! 3))
                    (section_lines (last secs)))
              in if atom_lines \<noteq> [] then join [nl] atom_lines else ''Not found'')"
    unfolding l geometry_of_block_def section_block.simps section_lines.simps
    by (simp only:)
  with f g show ?thesis by (simp only: simp_thms)
qed

proposition geometry_from_last_section_example:
  "parse_geometry (report_text sample_sections sample_tail) =
     ''O       0.001200     -0.000400      0.000000'' @ [nl] @
     ''H       0.957100      0.002300      0.000000''"
proof -
  have 1: "sample_sections \<noteq> []" by (simp add: sample_sections_def)
  have 2: "list_all section_ok sample_sections"
    by (simp add: sample_sections_def begins_inside_def geometry_header_def block_line_def
        is_space_def)
  have 3: "\<not> str_contains geometry_header sample_tail"
    by (simp add: sample_tail_def geometry_header_def)
  have 4: "geometry_of_block (section_block (last sample_sections)) =
     ''O       0.001200     -0.000400      0.000000'' @ [nl] @
     ''H       0.957100      0.002300      0.000000''"
    by code_simp
  show ?thesis
    using geometry_from_last_section[OF 1 2 3, THEN conjunct2, THEN conjunct1] 4
    by (simp only:)
qed

text \<open>
  C1.  The parser does not always return the last section, although the claim and the
  comments of the code (lines 89 and 94) say so.  In the text of two sections, each a
  header, a rule, one atom line and one empty line, the lazy group has consumed the
  line feed of the atom line when the lookahead is tried, so the single empty line does
  not end the block: the only match starts at the first header and runs up to the rule
  of the second section, swallowing its header.  The geometry returned is the H atom of
  the first section; the block of the last section would give the O atom.
\<close>

theorem first_section_returned:
  "findall geometry_pattern
        (geometry_header @ [nl] @ ''---'' @ [nl] @ ''H 0.0 0.0 0.0'' @ [nl] @ [nl] @
         geometry_header @ [nl] @ ''---'' @ [nl] @ ''O 1.0 1.0 1.0'' @ [nl] @ [nl])
     = [''H 0.0 0.0 0.0'' @ [nl] @ [nl] @ geometry_header @ [nl]]
   \<and> parse_geometry
        (geometry_header @ [nl] @ ''---'' @ [nl] @ ''H 0.0 0.0 0.0'' @ [nl] @ [nl] @
         geometry_header @ [nl] @ ''---'' @ [nl] @ ''O 1.0 1.0 1.0'' @ [nl] @ [nl])
     = ''H            0.0           0.0           0.0''
   \<and> geometry_of_block (''O 1.0 1.0 1.0'' @ [nl] @ [nl])
     = ''O            1.0           1.0           1.0''"
  by code_simp

end
